theory Spec2Isabelle
  imports Main "HOL-Library.AList" "HOL-Library.Multiset" "HOL-Library.Char_ord"
    "HOL-Library.List_Lexorder"
begin

section \<open>The virtual disk of filesystem.py\<close>

text \<open>
  The disk is the dictionary built by \<open>default_disk\<close>: a list of block slots, each
  \<open>None\<close> or a string fragment; a dictionary from path to the list of block indices of
  the file; and the name of the allocation strategy (a disk without that entry behaves like one with
  \<open>bitmap\<close>, the default of \<open>disk.get\<close>). The \<open>meta\<close> entry is never read
  or written by a command and is left out. A Python dictionary keeps its keys in
  insertion order, so the file table is an association list: \<open>map_of\<close> is the lookup,
  \<open>AList.update\<close> the assignment (a present key keeps its place, a new one goes last)
  and \<open>AList.delete\<close> is \<open>del\<close>. One \<open>char\<close> stands for one character of a Python
  string, so \<open>length\<close> is Python's \<open>len\<close>. Block indices stored in the file table
  are Python integers; indexing a list with them follows Python (a negative index counts
  from the end, an index out of range raises IndexError).
\<close>

definition BLOCK_SIZE :: nat where
  "BLOCK_SIZE = 128"

definition TOTAL_BLOCKS :: nat where
  "TOTAL_BLOCKS = 128"

type_synonym block = "string option"

record disk =
  blocks :: "block list"
  files :: "(string \<times> int list) list"
  strategy :: string

datatype error = FileNotFoundError | IndexError

definition default_disk :: disk where
  "default_disk = \<lparr>blocks = replicate TOTAL_BLOCKS None, files = [], strategy = ''bitmap''\<rparr>"

definition py_index :: "nat \<Rightarrow> int \<Rightarrow> nat option" where
  \<comment> \<open>the position \<open>xs[i]\<close> denotes in a list of length \<open>len\<close>; \<open>None\<close> is IndexError\<close>
  "py_index len i =
     (if 0 \<le> i then (if i < int len then Some (nat i) else None)
      else (if - int len \<le> i then Some (nat (i + int len)) else None))"

definition slice :: "string \<Rightarrow> nat \<Rightarrow> nat \<Rightarrow> string" where
  \<comment> \<open>\<open>s[a:b]\<close> for \<open>0 \<le> a \<le> b\<close>\<close>
  "slice s a b = take (b - a) (drop a s)"

definition or_empty :: "block \<Rightarrow> string" where
  \<comment> \<open>\<open>b or ""\<close>\<close>
  "or_empty b = (case b of None \<Rightarrow> [] | Some s \<Rightarrow> s)"

subsection \<open>Allocation strategies\<close>

definition free_indices :: "disk \<Rightarrow> nat list" where
  "free_indices d = map fst (filter (\<lambda>(i, b). b = None) (enumerate 0 (blocks d)))"

definition get_free_blocks_bitmap :: "disk \<Rightarrow> nat \<Rightarrow> nat list option" where
  "get_free_blocks_bitmap d n =
     (let free = free_indices d in if length free < n then None else Some (take n free))"

text \<open>
  The loop of \<open>get_free_blocks_first_fit\<close>, with the counter \<open>run\<close> as an argument.
  When \<open>run = n\<close> holds at index \<open>i\<close>, \<open>run \<le> i + 1\<close>, so \<open>start = i - n + 1\<close> is
  not negative and the subtraction on naturals is exact.
\<close>

fun first_fit_loop :: "nat \<Rightarrow> nat \<Rightarrow> (nat \<times> block) list \<Rightarrow> nat list option" where
  "first_fit_loop n run [] = None"
| "first_fit_loop n run ((i, b) # rest) =
     (let run' = (if b = None then run + 1 else 0)
      in if run' = n then (let start = i + 1 - n in Some [start ..< start + n])
         else first_fit_loop n run' rest)"

definition get_free_blocks_first_fit :: "disk \<Rightarrow> nat \<Rightarrow> nat list option" where
  "get_free_blocks_first_fit d n = first_fit_loop n 0 (enumerate 0 (blocks d))"

text \<open>
  The loop of \<open>get_free_blocks_best_fit\<close> returns \<open>runs\<close> and \<open>current\<close>; \<open>min_key\<close> is
  Python's \<open>min(xs, key=f)\<close> on a non-empty list, which keeps the first of several
  minimal elements.
\<close>

fun best_fit_loop ::
  "nat list list \<Rightarrow> nat list \<Rightarrow> (nat \<times> block) list \<Rightarrow> nat list list \<times> nat list" where
  "best_fit_loop runs current [] = (runs, current)"
| "best_fit_loop runs current ((i, b) # rest) =
     (if b = None then best_fit_loop runs (current @ [i]) rest
      else if current \<noteq> [] then best_fit_loop (runs @ [current]) [] rest
      else best_fit_loop runs current rest)"

definition free_runs :: "disk \<Rightarrow> nat list list" where
  "free_runs d =
     (case best_fit_loop [] [] (enumerate 0 (blocks d)) of
        (runs, current) \<Rightarrow> if current \<noteq> [] then runs @ [current] else runs)"

fun min_key_from :: "('a \<Rightarrow> nat) \<Rightarrow> 'a \<Rightarrow> 'a list \<Rightarrow> 'a" where
  "min_key_from f m [] = m"
| "min_key_from f m (x # xs) = (if f x < f m then min_key_from f x xs else min_key_from f m xs)"

definition min_key :: "('a \<Rightarrow> nat) \<Rightarrow> 'a list \<Rightarrow> 'a" where
  "min_key f xs = min_key_from f (hd xs) (tl xs)"

definition get_free_blocks_best_fit :: "disk \<Rightarrow> nat \<Rightarrow> nat list option" where
  "get_free_blocks_best_fit d n =
     (let candidates = filter (\<lambda>r. length r \<ge> n) (free_runs d)
      in if candidates = [] then None else Some (take n (min_key length candidates)))"

definition allocate_blocks :: "disk \<Rightarrow> nat \<Rightarrow> int list option" where
  "allocate_blocks d n =
     (if strategy d = ''bitmap'' then map_option (map int) (get_free_blocks_bitmap d n)
      else if strategy d = ''first_fit'' then map_option (map int) (get_free_blocks_first_fit d n)
      else if strategy d = ''best_fit'' then map_option (map int) (get_free_blocks_best_fit d n)
      else None)"

subsection \<open>File operations\<close>

fun read_pieces :: "block list \<Rightarrow> int list \<Rightarrow> error + string" where
  "read_pieces bl [] = Inr []"
| "read_pieces bl (b # bs) =
     (case py_index (length bl) b of
        None \<Rightarrow> Inl IndexError
      | Some k \<Rightarrow> (case read_pieces bl bs of
                    Inl e \<Rightarrow> Inl e
                  | Inr s \<Rightarrow> Inr (or_empty (bl ! k) @ s)))"

definition read_file_text :: "disk \<Rightarrow> string \<Rightarrow> error + string" where
  "read_file_text d path =
     (case map_of (files d) path of
        None \<Rightarrow> Inl FileNotFoundError
      | Some bs \<Rightarrow> read_pieces (blocks d) bs)"

definition is_contiguous :: "int list \<Rightarrow> bool" where
  "is_contiguous bs =
     (if bs \<noteq> [] then list_all (\<lambda>i. bs ! i + 1 = bs ! (i + 1)) [0 ..< length bs - 1] else True)"

subsection \<open>Tokenising command lines\<close>

text \<open>
  \<open>execute_command\<close> splits its line with \<open>shlex.split\<close> and the append command builds
  the line of a nested call with \<open>shlex.quote\<close>. Both are modelled after the standard
  library: the lexer in POSIX mode with \<open>whitespace_split\<close> set and no comment
  characters. \<open>read_tokens\<close> takes the lexer's \<open>state\<close>, \<open>escapedstate\<close>, the flag
  \<open>quoted\<close>, the token read so far and the rest of the input, and returns the tokens
  still to come; \<open>None\<close> is the ValueError of an unclosed quotation or a dangling escape.
\<close>

datatype lex_state = LSpace | LWord | LQuote char | LEscape

definition is_whitespace :: "char \<Rightarrow> bool" where
  "is_whitespace c \<longleftrightarrow> c = CHR '' '' \<or> c = CHR 0x09 \<or> c = CHR 0x0D \<or> c = CHR 0x0A"

definition is_quote :: "char \<Rightarrow> bool" where
  "is_quote c \<longleftrightarrow> c = CHR 0x27 \<or> c = CHR 0x22"

definition is_escape :: "char \<Rightarrow> bool" where
  "is_escape c \<longleftrightarrow> c = CHR 0x5C"

definition emit_last :: "bool \<Rightarrow> string \<Rightarrow> string list" where
  \<comment> \<open>at the end of the input an empty token counts only if it was quoted\<close>
  "emit_last quoted tok = (if \<not> quoted \<and> tok = [] then [] else [tok])"

fun read_tokens ::
  "lex_state \<Rightarrow> lex_state \<Rightarrow> bool \<Rightarrow> string \<Rightarrow> string \<Rightarrow> string list option" where
  "read_tokens LSpace es quoted tok [] = Some (emit_last quoted tok)"
| "read_tokens LWord es quoted tok [] = Some (emit_last quoted tok)"
| "read_tokens (LQuote q) es quoted tok [] = None"
| "read_tokens LEscape es quoted tok [] = None"
| "read_tokens LSpace es quoted tok (c # cs) =
     (if is_whitespace c then
        (if tok \<noteq> [] \<or> quoted then map_option (Cons tok) (read_tokens LSpace LSpace False [] cs)
         else read_tokens LSpace es quoted tok cs)
      else if is_escape c then read_tokens LEscape LWord quoted tok cs
      else if is_quote c then read_tokens (LQuote c) es quoted tok cs
      else read_tokens LWord es quoted [c] cs)"
| "read_tokens (LQuote q) es quoted tok (c # cs) =
     (if c = q then read_tokens LWord es True tok cs
      else if is_escape c \<and> q = CHR 0x22 then read_tokens LEscape (LQuote q) True tok cs
      else read_tokens (LQuote q) es True (tok @ [c]) cs)"
| "read_tokens LEscape es quoted tok (c # cs) =
     (let tok' = (case es of
                    LQuote q \<Rightarrow> if \<not> is_escape c \<and> c \<noteq> q then tok @ [CHR 0x5C] else tok
                  | _ \<Rightarrow> tok)
      in read_tokens es es quoted (tok' @ [c]) cs)"
| "read_tokens LWord es quoted tok (c # cs) =
     (if is_whitespace c then
        (if tok \<noteq> [] \<or> quoted then map_option (Cons tok) (read_tokens LSpace LSpace False [] cs)
         else read_tokens LSpace es quoted tok cs)
      else if is_quote c then read_tokens (LQuote c) es quoted tok cs
      else if is_escape c then read_tokens LEscape LWord quoted tok cs
      else read_tokens LWord es quoted (tok @ [c]) cs)"

definition shlex_split :: "string \<Rightarrow> string list option" where
  "shlex_split s = read_tokens LSpace LSpace False [] s"

definition is_safe :: "char \<Rightarrow> bool" where
  \<comment> \<open>the characters \<open>shlex.quote\<close> leaves alone: ASCII letters, digits and \<open>_@%+=:,./-\<close>\<close>
  "is_safe c \<longleftrightarrow>
     (CHR ''a'' \<le> c \<and> c \<le> CHR ''z'') \<or> (CHR ''A'' \<le> c \<and> c \<le> CHR ''Z'') \<or>
     (CHR ''0'' \<le> c \<and> c \<le> CHR ''9'') \<or> c \<in> set ''_@%+=:,./-''"

definition shlex_quote :: "string \<Rightarrow> string" where
  "shlex_quote s =
     (if s = [] then [CHR 0x27, CHR 0x27]
      else if list_all is_safe s then s
      else [CHR 0x27]
           @ concat (map (\<lambda>c. if c = CHR 0x27 then [CHR 0x27, CHR 0x22, CHR 0x27, CHR 0x22, CHR 0x27]
                               else [c]) s)
           @ [CHR 0x27])"

definition lower_char :: "char \<Rightarrow> char" where
  "lower_char c =
     (if (CHR ''A'' \<le> c \<and> c \<le> CHR ''Z'') \<or> (CHR 0xC0 \<le> c \<and> c \<le> CHR 0xDE \<and> c \<noteq> CHR 0xD7)
      then char_of (of_char c + (32::nat)) else c)"

definition join_space :: "string list \<Rightarrow> string" where
  \<comment> \<open>\<open>" ".join(xs)\<close>\<close>
  "join_space xs = (case xs of [] \<Rightarrow> [] | x # r \<Rightarrow> x @ concat (map (\<lambda>y. CHR '' '' # y) r))"

subsection \<open>The commands\<close>

text \<open>
  A command mutates the disk in place and returns its message, or raises. The model
  returns the disk as the command leaves it, also when an exception interrupts a loop,
  together with a \<open>reply\<close> that stands for the message:
  \<open>Wrote n p\<close> for "Wrote n bytes to p", \<open>NoSpace\<close> for "Not enough space.",
  \<open>Appended p\<close> for "Appended to p", \<open>Deleted p\<close> for "Deleted p", \<open>NotFound\<close> for
  "File not found", \<open>Defragmented\<close> for "Defragmentation complete.",
  \<open>Text s\<close> for the output \<open>s\<close> of the cat command,
  \<open>Changed s\<close> for "Changed strategy to s", \<open>InvalidStrategy\<close> for "Invalid strategy.",
  \<open>Usage\<close> for a usage line, \<open>InvalidCommand\<close> for "Invalid command: ...",
  \<open>Blank\<close> for the empty reply to an empty line, \<open>Unknown\<close> for "Unknown command.",
  \<open>Report\<close> for the text of \<open>help\<close>, \<open>ls\<close>, \<open>map\<close>, \<open>info\<close>, \<open>exit\<close> and \<open>quit\<close>,
  which do not change the disk, and \<open>Raised e\<close> for an exception that leaves
  \<open>execute_command\<close>. Saving the disk to its file is not modelled. The write, append,
  cat and rm commands are modelled from the point where their arguments \<open>path\<close> and
  \<open>content\<close> have been taken from the tokens; \<open>execute_command\<close> does that step.
\<close>

datatype reply =
    Wrote nat string | NoSpace | Appended string | Text string | Deleted string | NotFound
  | Defragmented | Changed string | InvalidStrategy | Usage | InvalidCommand | Blank
  | Unknown | Report | Raised error

definition blocks_needed :: "string \<Rightarrow> nat" where
  "blocks_needed content = (length content + BLOCK_SIZE - 1) div BLOCK_SIZE"

fun release :: "block list \<Rightarrow> int list \<Rightarrow> block list \<times> error option" where
  \<comment> \<open>\<open>for b in bs: disk["blocks"][b] = None\<close>\<close>
  "release bl [] = (bl, None)"
| "release bl (b # bs) =
     (case py_index (length bl) b of
        None \<Rightarrow> (bl, Some IndexError)
      | Some k \<Rightarrow> release (bl[k := None]) bs)"

fun store_chunks :: "block list \<Rightarrow> string \<Rightarrow> (nat \<times> int) list \<Rightarrow> block list \<times> error option" where
  \<comment> \<open>\<open>for i, idx in enumerate(bs): blocks[idx] = content[i*BLOCK_SIZE:(i+1)*BLOCK_SIZE]\<close>\<close>
  "store_chunks bl content [] = (bl, None)"
| "store_chunks bl content ((i, idx) # rest) =
     (case py_index (length bl) idx of
        None \<Rightarrow> (bl, Some IndexError)
      | Some k \<Rightarrow>
          store_chunks (bl[k := Some (slice content (i * BLOCK_SIZE) ((i + 1) * BLOCK_SIZE))])
            content rest)"

definition cmd_write :: "disk \<Rightarrow> string \<Rightarrow> string \<Rightarrow> disk \<times> reply" where
  "cmd_write d path content =
     (case allocate_blocks d (blocks_needed content) of
        None \<Rightarrow> (d, NoSpace)
      | Some bs \<Rightarrow>
          if bs = [] then (d, NoSpace)
          else (case release (blocks d) (case map_of (files d) path of None \<Rightarrow> [] | Some old \<Rightarrow> old) of
                  (bl1, Some e) \<Rightarrow> (d\<lparr>blocks := bl1\<rparr>, Raised e)
                | (bl1, None) \<Rightarrow>
                    (case store_chunks bl1 content (enumerate 0 bs) of
                       (bl2, Some e) \<Rightarrow> (d\<lparr>blocks := bl2\<rparr>, Raised e)
                     | (bl2, None) \<Rightarrow>
                         (d\<lparr>blocks := bl2, files := AList.update path bs (files d)\<rparr>,
                          Wrote (length content) path))))"

text \<open>
  The call \<open>execute_command(disk, f"write {path} {shlex.quote(new_content)}")\<close> that
  the append command makes: the line is tokenised again and, its first token being
  \<open>write\<close>, runs the write command on the tokens that follow. The line always
  starts with \<open>write\<close> and a space, so no other command can be dispatched; the last
  branch below is never taken (lemma \<open>execute_write_line_is_execute_command\<close>).
\<close>

definition execute_write_line :: "disk \<Rightarrow> string \<Rightarrow> disk \<times> reply" where
  "execute_write_line d line =
     (case shlex_split line of
        None \<Rightarrow> (d, InvalidCommand)
      | Some [] \<Rightarrow> (d, Blank)
      | Some (c # args) \<Rightarrow>
          if map lower_char c = ''write'' then
            (if length args < 2 then (d, Usage)
             else cmd_write d (hd args) (join_space (tl args)))
          else (d, Unknown))"

definition cmd_append :: "disk \<Rightarrow> string \<Rightarrow> string \<Rightarrow> disk \<times> reply" where
  "cmd_append d path content =
     (case (if map_of (files d) path \<noteq> None then read_file_text d path else Inr []) of
        Inl e \<Rightarrow> (d, Raised e)
      | Inr existing \<Rightarrow>
          (case execute_write_line d (''write '' @ path @ '' '' @ shlex_quote (existing @ content)) of
             (d', Raised e) \<Rightarrow> (d', Raised e)
           | (d', _) \<Rightarrow> (d', Appended path)))"

text \<open>
  Every message is added to \<open>output\<close> with a newline after it (\<open>log\<close>), and
  \<open>execute_command\<close> ends with \<open>return output.strip()\<close>. For the cat command the
  message is the text of the file, so what the command returns is that text without
  the whitespace at its two ends, and nothing at all for a file of whitespace only.
  \<open>is_py_space\<close> is \<open>str.isspace\<close> on the characters of the model.
\<close>

definition is_py_space :: "char \<Rightarrow> bool" where
  "is_py_space c \<longleftrightarrow>
     c = CHR 0x09 \<or> c = CHR 0x0A \<or> c = CHR 0x0B \<or> c = CHR 0x0C \<or> c = CHR 0x0D
     \<or> c = CHR 0x1C \<or> c = CHR 0x1D \<or> c = CHR 0x1E \<or> c = CHR 0x1F \<or> c = CHR '' ''
     \<or> c = CHR 0x85 \<or> c = CHR 0xA0"

definition py_strip :: "string \<Rightarrow> string" where
  \<comment> \<open>\<open>s.strip()\<close>\<close>
  "py_strip s = rev (dropWhile is_py_space (rev (dropWhile is_py_space s)))"

definition cmd_cat :: "disk \<Rightarrow> string \<Rightarrow> disk \<times> reply" where
  "cmd_cat d path =
     (case read_file_text d path of
        Inl FileNotFoundError \<Rightarrow> (d, NotFound)
      | Inl IndexError \<Rightarrow> (d, Raised IndexError)
      | Inr text \<Rightarrow>
          (d, Text (py_strip ((if text \<noteq> [] then text else ''(empty file)'') @ [CHR 0x0A]))))"

definition cmd_rm :: "disk \<Rightarrow> string \<Rightarrow> disk \<times> reply" where
  "cmd_rm d path =
     (case map_of (files d) path of
        None \<Rightarrow> (d, NotFound)
      | Some bs \<Rightarrow>
          (case release (blocks d) bs of
             (bl, Some e) \<Rightarrow> (d\<lparr>blocks := bl\<rparr>, Raised e)
           | (bl, None) \<Rightarrow> (d\<lparr>blocks := bl, files := AList.delete path (files d)\<rparr>, Deleted path)))"

text \<open>
  The loop of the defrag command over \<open>sorted(disk["files"].items())\<close>, with
  \<open>new_blocks\<close>, \<open>new_map\<close> and \<open>idx\<close> as arguments. The disk itself is replaced only
  after the loop, so an exception leaves it as it was. The keys of a dictionary are
  distinct, so sorting the items sorts them by path; paths compare character by
  character, a proper prefix first.
\<close>

fun defrag_loop ::
  "disk \<Rightarrow> block list \<Rightarrow> (string \<times> int list) list \<Rightarrow> nat \<Rightarrow> (string \<times> int list) list
     \<Rightarrow> error + block list \<times> (string \<times> int list) list" where
  "defrag_loop d new_blocks new_map idx [] = Inr (new_blocks, new_map)"
| "defrag_loop d new_blocks new_map idx ((name, bs) # rest) =
     (case read_file_text d name of
        Inl e \<Rightarrow> Inl e
      | Inr text \<Rightarrow>
          (let assigned = map int [idx ..< idx + blocks_needed text]
           in case store_chunks new_blocks text (enumerate 0 assigned) of
                (nb, Some e) \<Rightarrow> Inl e
              | (nb, None) \<Rightarrow>
                  defrag_loop d nb (AList.update name assigned new_map)
                    (idx + blocks_needed text) rest))"

definition cmd_defrag :: "disk \<Rightarrow> disk \<times> reply" where
  "cmd_defrag d =
     (case defrag_loop d (replicate TOTAL_BLOCKS None) [] 0 (sort_key fst (files d)) of
        Inl e \<Rightarrow> (d, Raised e)
      | Inr (new_blocks, new_map) \<Rightarrow> (d\<lparr>blocks := new_blocks, files := new_map\<rparr>, Defragmented))"

definition VALID_STRATEGIES :: "string list" where
  "VALID_STRATEGIES = [''bitmap'', ''first_fit'', ''best_fit'']"

definition cmd_strategy :: "disk \<Rightarrow> string \<Rightarrow> disk \<times> reply" where
  "cmd_strategy d name =
     (if name \<notin> set VALID_STRATEGIES then (d, InvalidStrategy)
      else (d\<lparr>strategy := name\<rparr>, Changed name))"

definition cmd_ls :: "disk \<Rightarrow> disk \<times> reply" where
  \<comment> \<open>the listing reads every block of every file: IndexError on an index out of range\<close>
  "cmd_ls d =
     (if list_ex (\<lambda>(name, bs). read_pieces (blocks d) bs = Inl IndexError) (files d)
      then (d, Raised IndexError) else (d, Report))"

definition execute_command :: "disk \<Rightarrow> string \<Rightarrow> disk \<times> reply" where
  "execute_command d command =
     (case shlex_split command of
        None \<Rightarrow> (d, InvalidCommand)
      | Some [] \<Rightarrow> (d, Blank)
      | Some (c # args) \<Rightarrow>
          (let cmd = map lower_char c in
           if cmd = ''exit'' \<or> cmd = ''quit'' \<or> cmd = ''help'' then (d, Report)
           else if cmd = ''write'' then
             (if length args < 2 then (d, Usage)
              else cmd_write d (hd args) (join_space (tl args)))
           else if cmd = ''append'' then
             (if length args < 2 then (d, Usage)
              else cmd_append d (hd args) (join_space (tl args)))
           else if cmd = ''cat'' then
             (if length args \<noteq> 1 then (d, Usage) else cmd_cat d (hd args))
           else if cmd = ''rm'' then
             (if length args \<noteq> 1 then (d, Usage) else cmd_rm d (hd args))
           else if cmd = ''ls'' then cmd_ls d
           else if cmd = ''defrag'' then cmd_defrag d
           else if cmd = ''map'' then (d, Report)
           else if cmd = ''strategy'' then
             (if length args \<noteq> 1 then (d, Usage) else cmd_strategy d (hd args))
           else if cmd = ''info'' then (d, Report)
           else (d, Unknown)))"

section \<open>Notions of the specification\<close>

text \<open>
  \<open>free_window bl s n\<close>: the \<open>n\<close> slots of \<open>bl\<close> from index \<open>s\<close> on exist and are all
  empty.
\<close>

definition free_window :: "block list \<Rightarrow> nat \<Rightarrow> nat \<Rightarrow> bool" where
  "free_window bl s n \<longleftrightarrow> s + n \<le> length bl \<and> list_all (\<lambda>k. bl ! k = None) [s ..< s + n]"

definition scattered_disk :: disk where
  "scattered_disk =
     \<lparr>blocks = [None, Some ''x'', None, None], files = [(''g'', [1])], strategy = ''first_fit''\<rparr>"

text \<open>
  \<open>is_free_run bl s e\<close>: the slots \<open>s, ..., e - 1\<close> of \<open>bl\<close> are a maximal run of
  consecutive free slots: all empty, with a used slot or an end of the store on either
  side. \<open>finish_runs\<close> is the step after the loop of best_fit that appends a last open run.
\<close>

definition is_free_run :: "block list \<Rightarrow> nat \<Rightarrow> nat \<Rightarrow> bool" where
  "is_free_run bl s e \<longleftrightarrow>
     s < e \<and> e \<le> length bl \<and> list_all (\<lambda>k. bl ! k = None) [s ..< e]
     \<and> (s = 0 \<or> bl ! (s - 1) \<noteq> None) \<and> (e = length bl \<or> bl ! e \<noteq> None)"

definition finish_runs :: "nat list list \<times> nat list \<Rightarrow> nat list list" where
  "finish_runs rc = (case rc of (runs, current) \<Rightarrow> if current \<noteq> [] then runs @ [current] else runs)"

definition runs_disk :: disk where
  "runs_disk =
     \<lparr>blocks = [None, None, None, None, None, Some ''a'', None, None, Some ''b'', None, None, None],
      files = [(''p'', [5]), (''q'', [8])], strategy = ''best_fit''\<rparr>"

text \<open>
  \<open>chunk content i\<close> is the slice \<open>content[i*BLOCK_SIZE:(i+1)*BLOCK_SIZE]\<close> that the write
  command stores in the \<open>i\<close>-th block of a file.
\<close>

definition chunk :: "string \<Rightarrow> nat \<Rightarrow> string" where
  "chunk content i = slice content (i * BLOCK_SIZE) ((i + 1) * BLOCK_SIZE)"

text \<open>
  Disks for concrete cases. \<open>small_file_disk\<close> is the default disk after
  \<open>write f x\<close>; in \<open>full_disk\<close> the file \<open>f\<close> owns all 128 blocks, each full.
  \<open>old_blocks\<close> is \<open>disk["files"].get(path, [])\<close>. \<open>allocate_after_release\<close> follows
  the words of the specification, not the code: the allocation request served after the
  path's own blocks have been released.
\<close>

definition small_file_disk :: disk where
  "small_file_disk =
     \<lparr>blocks = Some ''x'' # replicate 127 None, files = [(''f'', [0])], strategy = ''bitmap''\<rparr>"


definition old_blocks :: "disk \<Rightarrow> string \<Rightarrow> int list" where
  "old_blocks d path = (case map_of (files d) path of None \<Rightarrow> [] | Some old \<Rightarrow> old)"


text \<open>
  A \<open>plain_token\<close> is a non-empty string without whitespace, quote or backslash: a path
  that the tokeniser reads back as itself when the append command pastes it, unquoted,
  into the line of its nested write. \<open>quote_body\<close> is the replacement
  \<open>s.replace("'", "'\"'\"'")\<close> inside \<open>shlex.quote\<close>.
\<close>

definition plain_char :: "char \<Rightarrow> bool" where
  "plain_char c \<longleftrightarrow> \<not> is_whitespace c \<and> \<not> is_quote c \<and> \<not> is_escape c"

definition plain_token :: "string \<Rightarrow> bool" where
  "plain_token p \<longleftrightarrow> p \<noteq> [] \<and> list_all plain_char p"

definition quote_body :: "string \<Rightarrow> string" where
  "quote_body s =
     concat (map (\<lambda>c. if c = CHR 0x27 then [CHR 0x27, CHR 0x22, CHR 0x27, CHR 0x22, CHR 0x27]
                        else [c]) s)"

text \<open>
  The invariants of the data model. \<open>owned\<close> lists every block index of the file table,
  file after file; \<open>no_sharing\<close> says that no index occurs twice in it, neither in two
  files nor twice in one. \<open>disk_inv\<close> collects the invariants: the store has
  \<open>TOTAL_BLOCKS\<close> slots, no fragment is longer than \<open>BLOCK_SIZE\<close>, the paths are the
  keys of a dictionary, every listed index is a valid 0-based index of a slot in use, and
  no block is shared.

  For the defrag command: \<open>text_of\<close> is what reading a file returns, \<open>layout\<close> the file
  table the loop builds from index \<open>idx\<close> on, \<open>packed\<close> the fragments it writes, in order,
  \<open>defragmented\<close> the disk that results, and \<open>contents\<close> the multiset of the files with
  what reading them returns. \<open>frag_disk\<close> is the default disk after
  \<open>write t t\<close>, \<open>write b y\<close>, \<open>rm t\<close> and a write of 129 characters to \<open>a\<close>, whose two
  blocks are then 0 and 2. An \<open>op\<close> is one of the commands that change the disk.
\<close>

definition owned :: "disk \<Rightarrow> int list" where
  "owned d = concat (map snd (files d))"

definition no_sharing :: "disk \<Rightarrow> bool" where
  "no_sharing d \<longleftrightarrow> distinct (owned d)"

definition disk_inv :: "disk \<Rightarrow> bool" where
  "disk_inv d \<longleftrightarrow>
     length (blocks d) = TOTAL_BLOCKS
     \<and> list_all (\<lambda>b. length (or_empty b) \<le> BLOCK_SIZE) (blocks d)
     \<and> distinct (map fst (files d))
     \<and> list_all (\<lambda>b. 0 \<le> b \<and> b < int (length (blocks d)) \<and> blocks d ! nat b \<noteq> None) (owned d)
     \<and> no_sharing d"

definition text_of :: "disk \<Rightarrow> string \<Rightarrow> string" where
  "text_of d name = (case read_file_text d name of Inr t \<Rightarrow> t | Inl e \<Rightarrow> [])"

fun layout :: "disk \<Rightarrow> nat \<Rightarrow> (string \<times> int list) list \<Rightarrow> (string \<times> int list) list" where
  "layout d idx [] = []"
| "layout d idx ((name, bs) # rest) =
     (name, map int [idx ..< idx + blocks_needed (text_of d name)])
     # layout d (idx + blocks_needed (text_of d name)) rest"

fun packed :: "disk \<Rightarrow> (string \<times> int list) list \<Rightarrow> block list" where
  "packed d [] = []"
| "packed d ((name, bs) # rest) =
     map (\<lambda>i. Some (chunk (text_of d name) i)) [0 ..< blocks_needed (text_of d name)]
     @ packed d rest"

definition contents :: "disk \<Rightarrow> (string \<times> (error + string)) multiset" where
  "contents d = mset (map (\<lambda>p. (p, read_file_text d p)) (map fst (files d)))"

definition defragmented :: "disk \<Rightarrow> disk" where
  "defragmented d =
     d\<lparr>blocks := packed d (sort_key fst (files d))
                   @ replicate (TOTAL_BLOCKS - length (packed d (sort_key fst (files d)))) None,
        files := layout d 0 (sort_key fst (files d))\<rparr>"

definition frag_disk :: disk where
  "frag_disk =
     \<lparr>blocks = [Some (replicate 128 CHR ''a''), Some ''y'', Some ''z''] @ replicate 125 None,
      files = [(''b'', [1]), (''a'', [0, 2])], strategy = ''bitmap''\<rparr>"

datatype op = Write string string | Append string string | Delete string | Defragment
  | SetStrategy string

fun apply_op :: "disk \<Rightarrow> op \<Rightarrow> disk" where
  "apply_op d (Write path content) = fst (cmd_write d path content)"
| "apply_op d (Append path content) = fst (cmd_append d path content)"
| "apply_op d (Delete path) = fst (cmd_rm d path)"
| "apply_op d Defragment = fst (cmd_defrag d)"
| "apply_op d (SetStrategy name) = fst (cmd_strategy d name)"

section \<open>Block counts and the empty write\<close>

lemma blocks_needed_Nil: "blocks_needed [] = 0"
  by (simp add: blocks_needed_def BLOCK_SIZE_def)

lemma blocks_needed_ceil:
  "length c \<le> blocks_needed c * BLOCK_SIZE \<and> blocks_needed c * BLOCK_SIZE < length c + BLOCK_SIZE"
  unfolding blocks_needed_def BLOCK_SIZE_def by simp linarith

lemma first_fit_loop_zero: "first_fit_loop 0 run xs = Some bs \<Longrightarrow> bs = []"
proof (induction xs arbitrary: run)
  case Nil
  then show ?case by simp
next
  case (Cons x xs)
  obtain i b where x: "x = (i, b)" by (cases x)
  show ?case
  proof (cases "(if b = None then run + 1 else 0) = 0")
    case True
    with Cons.prems x show ?thesis by (simp add: Let_def)
  next
    case False
    with Cons.prems x have "first_fit_loop 0 (if b = None then run + 1 else 0) xs = Some bs"
      by (simp add: Let_def)
    then show ?thesis by (rule Cons.IH)
  qed
qed

lemma allocate_blocks_cases:
  assumes "allocate_blocks d n = Some bs"
  obtains ks where "bs = map int ks"
    and "get_free_blocks_bitmap d n = Some ks \<or> get_free_blocks_first_fit d n = Some ks
         \<or> get_free_blocks_best_fit d n = Some ks"
  using assms unfolding allocate_blocks_def
  by (auto split: if_splits)

lemma allocate_zero:
  assumes a: "allocate_blocks d 0 = Some bs"
  shows "bs = []"
proof -
  have b: "get_free_blocks_bitmap d 0 = Some ks \<Longrightarrow> ks = []" for ks
    by (simp add: get_free_blocks_bitmap_def Let_def)
  have f: "get_free_blocks_first_fit d 0 = Some ks \<Longrightarrow> ks = []" for ks
    unfolding get_free_blocks_first_fit_def by (rule first_fit_loop_zero)
  have c: "get_free_blocks_best_fit d 0 = Some ks \<Longrightarrow> ks = []" for ks
    by (simp add: get_free_blocks_best_fit_def Let_def split: if_splits)
  from a obtain ks where "bs = map int ks"
    and "get_free_blocks_bitmap d 0 = Some ks \<or> get_free_blocks_first_fit d 0 = Some ks
         \<or> get_free_blocks_best_fit d 0 = Some ks"
    by (rule allocate_blocks_cases)
  with b f c show ?thesis by blast
qed

lemma cmd_write_empty: "cmd_write d path [] = (d, NoSpace)"
proof (cases "allocate_blocks d 0")
  case None
  then show ?thesis by (simp add: cmd_write_def blocks_needed_Nil)
next
  case (Some bs)
  then have "bs = []" by (rule allocate_zero)
  with Some show ?thesis by (simp add: cmd_write_def blocks_needed_Nil)
qed

text \<open>
  Claim C4. The write command asks for \<open>ceil(len(content) / BLOCK_SIZE)\<close> blocks: one
  block for content of length \<open>BLOCK_SIZE\<close>, two for length \<open>BLOCK_SIZE + 1\<close>, none for
  empty content. The claim wants the write of empty content to succeed with an empty
  allocation. The code does not: every strategy answers a request for zero blocks with
  the empty list or \<open>None\<close>, \<open>if not blocks\<close> takes both for a failure, and the command
  replies "Not enough space." and leaves the disk as it was, on every disk; on the
  default disk the path is still absent afterwards, also when the command comes as the
  line \<open>write f \<close> followed by two single quotes.
\<close>

theorem write_block_count_and_empty_content:
  "length c \<le> blocks_needed c * BLOCK_SIZE
   \<and> blocks_needed c * BLOCK_SIZE < length c + BLOCK_SIZE
   \<and> blocks_needed (replicate BLOCK_SIZE x) = 1
   \<and> blocks_needed (replicate (BLOCK_SIZE + 1) x) = 2
   \<and> blocks_needed [] = 0
   \<and> cmd_write d path [] = (d, NoSpace)
   \<and> cmd_write default_disk ''f'' [] = (default_disk, NoSpace)
   \<and> read_file_text (fst (cmd_write default_disk ''f'' [])) ''f'' = Inl FileNotFoundError
   \<and> execute_command default_disk (''write f '' @ [CHR 0x27, CHR 0x27]) = (default_disk, NoSpace)"
proof -
  have "blocks_needed (replicate BLOCK_SIZE x) = 1"
    by (simp add: blocks_needed_def BLOCK_SIZE_def)
  moreover have "blocks_needed (replicate (BLOCK_SIZE + 1) x) = 2"
    by (simp add: blocks_needed_def BLOCK_SIZE_def)
  moreover have "read_file_text (fst (cmd_write default_disk ''f'' [])) ''f'' = Inl FileNotFoundError"
    by (simp add: cmd_write_empty read_file_text_def default_disk_def)
  moreover have "execute_command default_disk (''write f '' @ [CHR 0x27, CHR 0x27])
                 = (default_disk, NoSpace)"
    by code_simp
  ultimately show ?thesis
    using blocks_needed_ceil [of c] by (simp add: cmd_write_empty blocks_needed_Nil)
qed

section \<open>The allocators\<close>

lemma free_window_iff:
  "free_window bl s n \<longleftrightarrow> s + n \<le> length bl \<and> (\<forall>k. s \<le> k \<and> k < s + n \<longrightarrow> bl ! k = None)"
  by (auto simp: free_window_def list_all_iff)

lemma first_fit_loop_spec:
  assumes "bl = pre @ rest" and "run < n" and "run \<le> length pre"
    and "\<forall>k. length pre - run \<le> k \<and> k < length pre \<longrightarrow> bl ! k = None"
    and "run = length pre \<or> bl ! (length pre - run - 1) \<noteq> None"
    and "\<forall>s. s + n \<le> length pre \<longrightarrow> \<not> free_window bl s n"
  shows "case first_fit_loop n run (enumerate (length pre) rest) of
           None \<Rightarrow> \<forall>s. \<not> free_window bl s n
         | Some r \<Rightarrow> \<exists>s. r = [s ..< s + n] \<and> free_window bl s n
                        \<and> (\<forall>s'<s. \<not> free_window bl s' n)"
  using assms
proof (induction rest arbitrary: pre run)
  case Nil
  then show ?case by (auto simp: free_window_iff)
next
  case (Cons b rest)
  let ?i = "length pre"
  have blb: "bl ! ?i = b" using Cons.prems(1) by simp
  have len: "?i < length bl" using Cons.prems(1) by simp
  have bl': "bl = (pre @ [b]) @ rest" using Cons.prems(1) by simp
  show ?case
  proof (cases "b = None")
    case True
    have free': "\<forall>k. ?i - run \<le> k \<and> k < ?i + 1 \<longrightarrow> bl ! k = None"
    proof (intro allI impI)
      fix k assume k: "?i - run \<le> k \<and> k < ?i + 1"
      show "bl ! k = None"
      proof (cases "k = ?i")
        case True
        then show ?thesis using blb \<open>b = None\<close> by simp
      next
        case False
        with k have "?i - run \<le> k \<and> k < ?i" by simp
        with Cons.prems(4) show ?thesis by blast
      qed
    qed
    show ?thesis
    proof (cases "run + 1 = n")
      case eq: True
      let ?s = "?i + 1 - n"
      have s: "?s = ?i - run" using eq by simp
      have sn: "?s + n = ?i + 1" using eq Cons.prems(3) by simp
      have fw: "free_window bl ?s n"
        unfolding free_window_iff using free' len s sn by simp
      have mini: "\<forall>s'<?s. \<not> free_window bl s' n"
      proof (intro allI impI)
        fix s' assume "s' < ?s"
        then have "s' + n \<le> ?i" using sn by simp
        with Cons.prems(6) show "\<not> free_window bl s' n" by blast
      qed
      have "first_fit_loop n run (enumerate ?i (b # rest)) = Some [?s ..< ?s + n]"
        using True eq by (simp add: Let_def)
      with fw mini show ?thesis by auto
    next
      case neq: False
      then have lt: "run + 1 < n" using Cons.prems(2) by simp
      have step: "first_fit_loop n run (enumerate ?i (b # rest))
                  = first_fit_loop n (run + 1) (enumerate (length (pre @ [b])) rest)"
        using True neq by (simp add: Let_def)
      have p4: "\<forall>k. length (pre @ [b]) - (run + 1) \<le> k \<and> k < length (pre @ [b]) \<longrightarrow> bl ! k = None"
        using free' by simp
      have p5: "run + 1 = length (pre @ [b]) \<or> bl ! (length (pre @ [b]) - (run + 1) - 1) \<noteq> None"
        using Cons.prems(5) by auto
      have p6: "\<forall>s. s + n \<le> length (pre @ [b]) \<longrightarrow> \<not> free_window bl s n"
      proof (intro allI impI)
        fix s assume sn: "s + n \<le> length (pre @ [b])"
        show "\<not> free_window bl s n"
        proof (cases "s + n \<le> ?i")
          case True
          with Cons.prems(6) show ?thesis by blast
        next
          case False
          with sn have e: "s + n = ?i + 1" by simp
          with lt have runlt: "run < ?i" by simp
          with Cons.prems(5) have used: "bl ! (?i - run - 1) \<noteq> None" by simp
          have idx: "s \<le> ?i - run - 1 \<and> ?i - run - 1 < s + n" using e lt runlt by arith
          show ?thesis
          proof
            assume "free_window bl s n"
            then have a: "\<forall>k. s \<le> k \<and> k < s + n \<longrightarrow> bl ! k = None"
              by (simp add: free_window_iff)
            from spec [OF a, of "?i - run - 1"] idx have "bl ! (?i - run - 1) = None" by simp
            with used show False by simp
          qed
        qed
      qed
      have p3: "run + 1 \<le> length (pre @ [b])" using Cons.prems(3) by simp
      show ?thesis unfolding step by (rule Cons.IH [OF bl' lt p3 p4 p5 p6])
    qed
  next
    case False
    have npos: "0 < n" using Cons.prems(2) by simp
    have step: "first_fit_loop n run (enumerate ?i (b # rest))
                = first_fit_loop n 0 (enumerate (length (pre @ [b])) rest)"
      using False npos by (cases b) (simp_all add: Let_def)
    have p4: "\<forall>k. length (pre @ [b]) - 0 \<le> k \<and> k < length (pre @ [b]) \<longrightarrow> bl ! k = None"
      by auto
    have p5: "0 = length (pre @ [b]) \<or> bl ! (length (pre @ [b]) - 0 - 1) \<noteq> None"
      using blb False by simp
    have p6: "\<forall>s. s + n \<le> length (pre @ [b]) \<longrightarrow> \<not> free_window bl s n"
    proof (intro allI impI)
      fix s assume sn: "s + n \<le> length (pre @ [b])"
      show "\<not> free_window bl s n"
      proof (cases "s + n \<le> ?i")
        case True
        with Cons.prems(6) show ?thesis by blast
      next
        case F: False
        with sn have e: "s + n = ?i + 1" by simp
        then have idx: "s \<le> ?i \<and> ?i < s + n" using npos by simp
        show ?thesis
        proof
          assume "free_window bl s n"
          then have a: "\<forall>k. s \<le> k \<and> k < s + n \<longrightarrow> bl ! k = None"
            by (simp add: free_window_iff)
          from spec [OF a, of ?i] idx have "bl ! ?i = None" by simp
          with blb False show False by simp
        qed
      qed
    qed
    have p3: "0 \<le> length (pre @ [b])" by simp
    show ?thesis unfolding step by (rule Cons.IH [OF bl' npos p3 p4 p5 p6])
  qed
qed

lemma first_fit_spec:
  assumes "1 \<le> n"
  shows "case get_free_blocks_first_fit d n of
           None \<Rightarrow> \<forall>s. \<not> free_window (blocks d) s n
         | Some r \<Rightarrow> \<exists>s. r = [s ..< s + n] \<and> free_window (blocks d) s n
                        \<and> (\<forall>s'<s. \<not> free_window (blocks d) s' n)"
proof -
  have "case first_fit_loop n 0 (enumerate (length ([]::block list)) (blocks d)) of
           None \<Rightarrow> \<forall>s. \<not> free_window (blocks d) s n
         | Some r \<Rightarrow> \<exists>s. r = [s ..< s + n] \<and> free_window (blocks d) s n
                        \<and> (\<forall>s'<s. \<not> free_window (blocks d) s' n)"
  proof (rule first_fit_loop_spec)
    show "blocks d = [] @ blocks d" by simp
    show "0 < n" using assms by simp
    show "0 \<le> length ([]::block list)" by simp
    show "\<forall>k. length ([]::block list) - 0 \<le> k \<and> k < length ([]::block list) \<longrightarrow> blocks d ! k = None" by simp
    show "0 = length ([]::block list) \<or> blocks d ! (length ([]::block list) - 0 - 1) \<noteq> None" by simp
    show "\<forall>s. s + n \<le> length ([]::block list) \<longrightarrow> \<not> free_window (blocks d) s n"
      using assms by simp
  qed
  then show ?thesis unfolding get_free_blocks_first_fit_def by simp
qed

lemma set_free_indices:
  "k \<in> set (free_indices d) \<longleftrightarrow> k < length (blocks d) \<and> blocks d ! k = None"
  by (auto simp: free_indices_def in_set_enumerate_eq image_iff)

lemma distinct_free_indices: "distinct (free_indices d)"
  unfolding free_indices_def
  by (rule distinct_map_filter) (simp add: map_fst_enumerate)

lemma sorted_free_indices: "sorted (free_indices d)"
  unfolding free_indices_def
  by (rule sorted_filter) (simp add: map_fst_enumerate)

lemma free_indices_eq:
  "free_indices d = filter (\<lambda>k. blocks d ! k = None) [0 ..< length (blocks d)]"
proof (rule sorted_distinct_set_unique)
  show "sorted (free_indices d)" by (rule sorted_free_indices)
  show "distinct (free_indices d)" by (rule distinct_free_indices)
  show "sorted (filter (\<lambda>k. blocks d ! k = None) [0 ..< length (blocks d)])"
    by (rule sorted_wrt_filter) simp
  show "distinct (filter (\<lambda>k. blocks d ! k = None) [0 ..< length (blocks d)])" by simp
  show "set (free_indices d) = set (filter (\<lambda>k. blocks d ! k = None) [0 ..< length (blocks d)])"
    using set_free_indices [of _ d] by auto
qed

lemma bitmap_sound:
  assumes "get_free_blocks_bitmap d n = Some ks"
  shows "length ks = n \<and> distinct ks \<and> (\<forall>k\<in>set ks. k < length (blocks d) \<and> blocks d ! k = None)"
proof -
  from assms have ks: "ks = take n (free_indices d)" and len: "n \<le> length (free_indices d)"
    by (auto simp: get_free_blocks_bitmap_def Let_def split: if_splits)
  have "set ks \<subseteq> set (free_indices d)" unfolding ks by (rule set_take_subset)
  then have "\<forall>k\<in>set ks. k < length (blocks d) \<and> blocks d ! k = None"
    using set_free_indices by blast
  moreover have "distinct ks" unfolding ks using distinct_free_indices by (rule distinct_take)
  moreover have "length ks = n" unfolding ks using len by simp
  ultimately show ?thesis by simp
qed

lemma first_fit_sound:
  assumes "get_free_blocks_first_fit d n = Some ks"
  shows "length ks = n \<and> distinct ks \<and> (\<forall>k\<in>set ks. k < length (blocks d) \<and> blocks d ! k = None)"
proof (cases "n = 0")
  case True
  with assms have "ks = []"
    unfolding get_free_blocks_first_fit_def by (auto dest: first_fit_loop_zero)
  with True show ?thesis by simp
next
  case False
  then have "1 \<le> n" by simp
  from first_fit_spec [OF this, of d] assms
  obtain s where "ks = [s ..< s + n]" and "free_window (blocks d) s n" by auto
  then show ?thesis by (auto simp: free_window_iff)
qed

lemma scattered_first_fit:
  "get_free_blocks_first_fit \<lparr>blocks = None # Some x # None # None # rest, files = fs, strategy = st\<rparr> 2
   = Some [2, 3]"
  by (simp add: get_free_blocks_first_fit_def Let_def upt_rec)

lemma scattered_bitmap:
  "get_free_blocks_bitmap \<lparr>blocks = None # Some x # None # None # rest, files = fs, strategy = st\<rparr> 2
   = Some [0, 2]"
  by (simp add: get_free_blocks_bitmap_def free_indices_def Let_def)

lemma gap_first_fit:
  "get_free_blocks_first_fit \<lparr>blocks = [None, Some x, None], files = fs, strategy = st\<rparr> 2 = None"
  by (simp add: get_free_blocks_first_fit_def Let_def)

lemma gap_bitmap:
  "get_free_blocks_bitmap \<lparr>blocks = [None, Some x, None], files = fs, strategy = st\<rparr> 2 = Some [0, 2]"
  by (simp add: get_free_blocks_bitmap_def free_indices_def Let_def)

text \<open>
  Claim C5. For \<open>n \<ge> 1\<close>, first_fit returns the indices \<open>s, ..., s + n - 1\<close> where
  \<open>s\<close> is the least index at which \<open>n\<close> consecutive slots are free (the run that
  reaches length \<open>n\<close> first in the ascending scan starts at \<open>s\<close>: the slot before it
  is used or \<open>s = 0\<close>), and fails exactly when no \<open>n\<close> consecutive slots are free,
  whatever the number of free slots. With only index 1 used among blocks 0..3, first_fit
  yields \<open>[2, 3]\<close> and bitmap \<open>[0, 2]\<close> for \<open>n = 2\<close>; with the slots
  free, used, free, first_fit fails for \<open>n = 2\<close> although two slots are free, and
  bitmap succeeds.
\<close>

theorem first_fit_allocation:
  assumes "1 \<le> n"
  shows "(case get_free_blocks_first_fit d n of
            None \<Rightarrow> \<forall>s. \<not> free_window (blocks d) s n
          | Some r \<Rightarrow> \<exists>s. r = [s ..< s + n] \<and> free_window (blocks d) s n
                         \<and> (\<forall>s'<s. \<not> free_window (blocks d) s' n)
                         \<and> (s = 0 \<or> blocks d ! (s - 1) \<noteq> None))
         \<and> get_free_blocks_first_fit
              \<lparr>blocks = None # Some x # None # None # rest, files = fs, strategy = st\<rparr> 2
            = Some [2, 3]
         \<and> get_free_blocks_bitmap
              \<lparr>blocks = None # Some x # None # None # rest, files = fs, strategy = st\<rparr> 2
            = Some [0, 2]
         \<and> get_free_blocks_first_fit \<lparr>blocks = [None, Some x, None], files = fs, strategy = st\<rparr> 2
            = None
         \<and> length (free_indices \<lparr>blocks = [None, Some x, None], files = fs, strategy = st\<rparr>) = 2
         \<and> get_free_blocks_bitmap \<lparr>blocks = [None, Some x, None], files = fs, strategy = st\<rparr> 2
            = Some [0, 2]"
proof -
  have main: "case get_free_blocks_first_fit d n of
            None \<Rightarrow> \<forall>s. \<not> free_window (blocks d) s n
          | Some r \<Rightarrow> \<exists>s. r = [s ..< s + n] \<and> free_window (blocks d) s n
                         \<and> (\<forall>s'<s. \<not> free_window (blocks d) s' n)
                         \<and> (s = 0 \<or> blocks d ! (s - 1) \<noteq> None)"
  proof (cases "get_free_blocks_first_fit d n")
    case None
    with first_fit_spec [OF assms, of d] show ?thesis by simp
  next
    case (Some r)
    with first_fit_spec [OF assms, of d] obtain s where s: "r = [s ..< s + n]"
      "free_window (blocks d) s n" "\<forall>s'<s. \<not> free_window (blocks d) s' n"
      by auto
    have "s = 0 \<or> blocks d ! (s - 1) \<noteq> None"
    proof (rule ccontr)
      assume "\<not> (s = 0 \<or> blocks d ! (s - 1) \<noteq> None)"
      then have pos: "0 < s" and free: "blocks d ! (s - 1) = None" by simp_all
      have "free_window (blocks d) (s - 1) n"
        unfolding free_window_iff
      proof (intro conjI allI impI)
        have "s + n \<le> length (blocks d)" using s(2) by (simp add: free_window_iff)
        then show "s - 1 + n \<le> length (blocks d)" by arith
      next
        fix k assume k: "s - 1 \<le> k \<and> k < s - 1 + n"
        show "blocks d ! k = None"
        proof (cases "k = s - 1")
          case True
          with free show ?thesis by simp
        next
          case False
          with k pos have "s \<le> k \<and> k < s + n" by arith
          with s(2) show ?thesis by (simp add: free_window_iff)
        qed
      qed
      moreover have "s - 1 < s" using pos by simp
      ultimately show False using s(3) by blast
    qed
    with s Some show ?thesis by auto
  qed
  have "length (free_indices \<lparr>blocks = [None, Some x, None], files = fs, strategy = st\<rparr>) = 2"
    by (simp add: free_indices_def)
  with main scattered_first_fit [of x rest fs st] scattered_bitmap [of x rest fs st]
    gap_first_fit [of x fs st] gap_bitmap [of x fs st]
  show ?thesis by simp
qed

theorem first_fit_allocation_witness:
  "(1::nat) \<le> 2
   \<and> get_free_blocks_first_fit scattered_disk 2 = Some [2, 3]
   \<and> free_window (blocks scattered_disk) 2 2
   \<and> \<not> free_window (blocks scattered_disk) 0 2
   \<and> \<not> free_window (blocks scattered_disk) 1 2
   \<and> blocks scattered_disk ! (2 - 1) \<noteq> None
   \<and> get_free_blocks_bitmap scattered_disk 2 = Some [0, 2]"
  using first_fit_allocation [of 2 scattered_disk]
  by (simp add: scattered_disk_def get_free_blocks_first_fit_def get_free_blocks_bitmap_def
      free_indices_def free_window_def Let_def)

lemma free_runs_finish: "free_runs d = finish_runs (best_fit_loop [] [] (enumerate 0 (blocks d)))"
  by (simp add: free_runs_def finish_runs_def)

lemma is_free_run_iff:
  "is_free_run bl s e \<longleftrightarrow>
     s < e \<and> e \<le> length bl \<and> (\<forall>k. s \<le> k \<and> k < e \<longrightarrow> bl ! k = None)
     \<and> (s = 0 \<or> bl ! (s - 1) \<noteq> None) \<and> (e = length bl \<or> bl ! e \<noteq> None)"
  by (auto simp: is_free_run_def list_all_iff)

lemma best_fit_loop_concat:
  "concat (finish_runs (best_fit_loop runs cur (enumerate i rest)))
   = concat runs @ cur @ map fst (filter (\<lambda>(i, b). b = None) (enumerate i rest))"
proof (induction rest arbitrary: runs cur i)
  case Nil
  then show ?case by (simp add: finish_runs_def)
next
  case (Cons b rest)
  show ?case
  proof (cases "b = None")
    case True
    then show ?thesis using Cons.IH [of runs "cur @ [i]" "Suc i"] by simp
  next
    case False
    show ?thesis
    proof (cases "cur = []")
      case True
      with False show ?thesis using Cons.IH [of runs "[]" "Suc i"] by (cases b) simp_all
    next
      case F: False
      with False show ?thesis using Cons.IH [of "runs @ [cur]" "[]" "Suc i"] by (cases b) simp_all
    qed
  qed
qed

lemma concat_free_runs: "concat (free_runs d) = free_indices d"
  by (simp add: free_runs_finish best_fit_loop_concat free_indices_def)

lemma best_fit_loop_runs:
  assumes "bl = pre @ rest"
    and "\<forall>r\<in>set runs. \<exists>s e. r = [s ..< e] \<and> is_free_run bl s e"
    and "cur = [s0 ..< length pre]" and "s0 \<le> length pre"
    and "\<forall>k. s0 \<le> k \<and> k < length pre \<longrightarrow> bl ! k = None"
    and "s0 = 0 \<or> bl ! (s0 - 1) \<noteq> None"
  shows "\<forall>r\<in>set (finish_runs (best_fit_loop runs cur (enumerate (length pre) rest))).
           \<exists>s e. r = [s ..< e] \<and> is_free_run bl s e"
  using assms
proof (induction rest arbitrary: pre runs cur s0)
  case Nil
  show ?case
  proof (cases "cur = []")
    case True
    with Nil.prems(2) show ?thesis by (simp add: finish_runs_def)
  next
    case False
    with Nil.prems(3) have lt: "s0 < length pre" by simp
    have "is_free_run bl s0 (length pre)"
      unfolding is_free_run_iff using lt Nil.prems(1,5,6) by simp
    with Nil.prems(2,3) False show ?thesis by (auto simp: finish_runs_def)
  qed
next
  case (Cons b rest)
  let ?i = "length pre"
  have blb: "bl ! ?i = b" using Cons.prems(1) by simp
  have len: "?i < length bl" using Cons.prems(1) by simp
  have bl': "bl = (pre @ [b]) @ rest" using Cons.prems(1) by simp
  show ?case
  proof (cases "b = None")
    case True
    have step: "best_fit_loop runs cur (enumerate ?i (b # rest))
                = best_fit_loop runs (cur @ [?i]) (enumerate (length (pre @ [b])) rest)"
      using True by simp
    have c: "cur @ [?i] = [s0 ..< length (pre @ [b])]"
      using Cons.prems(3,4) by simp
    have l: "s0 \<le> length (pre @ [b])" using Cons.prems(4) by simp
    have f: "\<forall>k. s0 \<le> k \<and> k < length (pre @ [b]) \<longrightarrow> bl ! k = None"
    proof (intro allI impI)
      fix k assume k: "s0 \<le> k \<and> k < length (pre @ [b])"
      show "bl ! k = None"
      proof (cases "k = ?i")
        case True
        with blb \<open>b = None\<close> show ?thesis by simp
      next
        case False
        with k have "s0 \<le> k \<and> k < ?i" by simp
        with Cons.prems(5) show ?thesis by blast
      qed
    qed
    show ?thesis unfolding step by (rule Cons.IH [OF bl' Cons.prems(2) c l f Cons.prems(6)])
  next
    case False
    have c: "[] = [length (pre @ [b]) ..< length (pre @ [b])]" by simp
    have l: "length (pre @ [b]) \<le> length (pre @ [b])" by simp
    have f: "\<forall>k. length (pre @ [b]) \<le> k \<and> k < length (pre @ [b]) \<longrightarrow> bl ! k = None" by auto
    have m: "length (pre @ [b]) = 0 \<or> bl ! (length (pre @ [b]) - 1) \<noteq> None"
      using blb False by simp
    show ?thesis
    proof (cases "cur = []")
      case True
      have step: "best_fit_loop runs cur (enumerate ?i (b # rest))
                = best_fit_loop runs [] (enumerate (length (pre @ [b])) rest)"
        using True False by (cases b) simp_all
      show ?thesis unfolding step by (rule Cons.IH [OF bl' Cons.prems(2) c l f m])
    next
      case F: False
      have step: "best_fit_loop runs cur (enumerate ?i (b # rest))
                = best_fit_loop (runs @ [cur]) [] (enumerate (length (pre @ [b])) rest)"
        using F False by (cases b) simp_all
      from F Cons.prems(3) have lt: "s0 < ?i" by simp
      have "is_free_run bl s0 ?i"
        unfolding is_free_run_iff using lt len Cons.prems(5,6) blb False by simp
      with Cons.prems(2,3)
      have r: "\<forall>r\<in>set (runs @ [cur]). \<exists>s e. r = [s ..< e] \<and> is_free_run bl s e" by auto
      show ?thesis unfolding step by (rule Cons.IH [OF bl' r c l f m])
    qed
  qed
qed

lemma free_runs_are_runs:
  "\<forall>r\<in>set (free_runs d). \<exists>s e. r = [s ..< e] \<and> is_free_run (blocks d) s e"
proof -
  have "\<forall>r\<in>set (finish_runs (best_fit_loop [] [] (enumerate (length ([]::block list)) (blocks d)))).
           \<exists>s e. r = [s ..< e] \<and> is_free_run (blocks d) s e"
  proof (rule best_fit_loop_runs [where ?s0.0 = 0])
    show "blocks d = [] @ blocks d" by simp
    show "\<forall>r\<in>set []. \<exists>s e. r = [s ..< e] \<and> is_free_run (blocks d) s e" by simp
    show "[] = [0 ..< length ([]::block list)]" by simp
    show "0 \<le> length ([]::block list)" by simp
    show "\<forall>k. 0 \<le> k \<and> k < length ([]::block list) \<longrightarrow> blocks d ! k = None" by simp
    show "(0::nat) = 0 \<or> blocks d ! (0 - 1) \<noteq> None" by simp
  qed
  then show ?thesis by (simp add: free_runs_finish)
qed

lemma free_run_unique:
  assumes a: "is_free_run bl s e" and b: "is_free_run bl s' e'"
    and k: "s \<le> k" "k < e" "s' \<le> k" "k < e'"
  shows "s = s' \<and> e = e'"
proof -
  from a have fa: "\<And>j. s \<le> j \<Longrightarrow> j < e \<Longrightarrow> bl ! j = None"
    and la: "s = 0 \<or> bl ! (s - 1) \<noteq> None" and ra: "e = length bl \<or> bl ! e \<noteq> None"
    and ea: "e \<le> length bl"
    by (simp_all add: is_free_run_iff)
  from b have fb: "\<And>j. s' \<le> j \<Longrightarrow> j < e' \<Longrightarrow> bl ! j = None"
    and lb: "s' = 0 \<or> bl ! (s' - 1) \<noteq> None" and rb: "e' = length bl \<or> bl ! e' \<noteq> None"
    and eb: "e' \<le> length bl"
    by (simp_all add: is_free_run_iff)
  have "s = s'"
  proof (rule ccontr)
    assume ne: "s \<noteq> s'"
    show False
    proof (cases "s < s'")
      case True
      then have "s \<le> s' - 1" "s' - 1 < e" "s' \<noteq> 0" using k by arith+
      with fa [of "s' - 1"] lb show False by simp
    next
      case False
      with ne have "s' \<le> s - 1" "s - 1 < e'" "s \<noteq> 0" using k by arith+
      with fb [of "s - 1"] la show False by simp
    qed
  qed
  moreover have "e = e'"
  proof (rule ccontr)
    assume ne: "e \<noteq> e'"
    show False
    proof (cases "e < e'")
      case True
      then have "s' \<le> e" "e \<noteq> length bl" using k eb by arith+
      with fb [of e] True ra show False by simp
    next
      case False
      with ne have "e' < e" by simp
      then have "s \<le> e'" "e' \<noteq> length bl" using k ea by arith+
      with fa [of e'] \<open>e' < e\<close> rb show False by simp
    qed
  qed
  ultimately show ?thesis by simp
qed

lemma free_runs_complete:
  assumes "is_free_run (blocks d) s e"
  shows "[s ..< e] \<in> set (free_runs d)"
proof -
  from assms have se: "s < e" and "e \<le> length (blocks d)" and "blocks d ! s = None"
    by (simp_all add: is_free_run_iff)
  then have "s \<in> set (free_indices d)" by (simp add: set_free_indices)
  then have "s \<in> set (concat (free_runs d))" by (simp add: concat_free_runs)
  then obtain r where r: "r \<in> set (free_runs d)" and sr: "s \<in> set r" by auto
  from free_runs_are_runs r obtain s' e' where r': "r = [s' ..< e']"
    and run: "is_free_run (blocks d) s' e'" by blast
  from sr r' have "s' \<le> s" "s < e'" by simp_all
  with free_run_unique [OF assms run, of s] se have "s = s' \<and> e = e'" by simp
  with r r' show ?thesis by simp
qed

lemma min_key_from_split:
  "\<exists>pre post. m # xs = pre @ min_key_from f m xs # post
     \<and> (\<forall>q\<in>set pre. f (min_key_from f m xs) < f q)
     \<and> (\<forall>q\<in>set post. f (min_key_from f m xs) \<le> f q)"
proof (induction xs arbitrary: m)
  case Nil
  have "[m] = [] @ m # [] \<and> (\<forall>q\<in>set []. f m < f q) \<and> (\<forall>q\<in>set []. f m \<le> f q)"
    by simp
  then have "\<exists>pre post. [m] = pre @ m # post
      \<and> (\<forall>q\<in>set pre. f m < f q) \<and> (\<forall>q\<in>set post. f m \<le> f q)"
    by blast
  then show ?case by simp
next
  case (Cons x xs)
  show ?case
  proof (cases "f x < f m")
    case True
    let ?r = "min_key_from f x xs"
    from Cons.IH [of x] obtain pre post where sp: "x # xs = pre @ ?r # post"
      and lo: "\<forall>q\<in>set pre. f ?r < f q" and hi: "\<forall>q\<in>set post. f ?r \<le> f q" by blast
    have "f ?r \<le> f x"
    proof (cases pre)
      case Nil
      from sp [unfolded Nil] have "x # xs = ?r # post" by (simp only: append_Nil)
      then have "x = ?r" by (rule list.inject [THEN iffD1, THEN conjunct1])
      then have "f x = f ?r" by (rule arg_cong)
      then show ?thesis by linarith
    next
      case (Cons p ps)
      with sp have "x \<in> set pre" by simp
      with lo show ?thesis by auto
    qed
    with True have "f ?r < f m" by simp
    with lo have lo': "\<forall>q\<in>set (m # pre). f ?r < f q" by simp
    have "m # x # xs = (m # pre) @ ?r # post" using sp by simp
    with lo' hi have "\<exists>pre post. m # x # xs = pre @ ?r # post
       \<and> (\<forall>q\<in>set pre. f ?r < f q) \<and> (\<forall>q\<in>set post. f ?r \<le> f q)" by blast
    with True show ?thesis by simp
  next
    case False
    let ?r = "min_key_from f m xs"
    from Cons.IH [of m] obtain pre post where sp: "m # xs = pre @ ?r # post"
      and lo: "\<forall>q\<in>set pre. f ?r < f q" and hi: "\<forall>q\<in>set post. f ?r \<le> f q" by blast
    have "\<exists>pre post. m # x # xs = pre @ ?r # post
       \<and> (\<forall>q\<in>set pre. f ?r < f q) \<and> (\<forall>q\<in>set post. f ?r \<le> f q)"
    proof (cases pre)
      case Nil
      from sp [unfolded Nil] have e: "m # xs = ?r # post" by (simp only: append_Nil)
      from e have r: "?r = m" by (rule list.inject [THEN iffD1, THEN conjunct1, symmetric])
      from e have p: "post = xs" by (rule list.inject [THEN iffD1, THEN conjunct2, symmetric])
      have "m # x # xs = [] @ ?r # (x # xs)" using r by simp
      moreover have "\<forall>q\<in>set (x # xs). f ?r \<le> f q" using hi p r False by auto
      moreover have "\<forall>q\<in>set ([]::'a list). f ?r < f q" by simp
      ultimately show ?thesis by blast
    next
      case (Cons p ps)
      from sp [unfolded Cons] have e: "m # xs = p # (ps @ ?r # post)" by (simp only: append_Cons)
      from e have pm: "p = m" by (rule list.inject [THEN iffD1, THEN conjunct1, symmetric])
      from e have xs: "xs = ps @ ?r # post" by (rule list.inject [THEN iffD1, THEN conjunct2])
      from lo Cons pm have "f ?r < f m" by simp
      with False have "f ?r < f x" by simp
      with lo Cons pm have "\<forall>q\<in>set (m # x # ps). f ?r < f q" by simp
      moreover have "m # x # xs = (m # x # ps) @ ?r # post" using xs by simp
      ultimately show ?thesis using hi by blast
    qed
    with False show ?thesis by simp
  qed
qed

lemma min_key_split:
  assumes "xs \<noteq> []"
  shows "\<exists>pre post. xs = pre @ min_key f xs # post
     \<and> (\<forall>q\<in>set pre. f (min_key f xs) < f q)
     \<and> (\<forall>q\<in>set post. f (min_key f xs) \<le> f q)"
proof -
  from assms obtain m ys where "xs = m # ys" by (cases xs) auto
  with min_key_from_split [of m ys f] show ?thesis by (simp add: min_key_def)
qed

lemma filter_split:
  assumes "filter P xs = a @ y # b"
  shows "\<exists>a' b'. xs = a' @ y # b' \<and> filter P a' = a \<and> filter P b' = b \<and> P y"
  using assms
proof (induction xs arbitrary: a)
  case Nil
  then show ?case by simp
next
  case (Cons x xs)
  show ?case
  proof (cases "P x")
    case False
    with Cons.prems have "filter P xs = a @ y # b" by simp
    from Cons.IH [OF this] obtain a' b' where "xs = a' @ y # b'" "filter P a' = a"
      "filter P b' = b" "P y" by blast
    with False have "x # xs = (x # a') @ y # b' \<and> filter P (x # a') = a \<and> filter P b' = b \<and> P y"
      by simp
    then show ?thesis by blast
  next
    case True
    with Cons.prems have eq: "x # filter P xs = a @ y # b" by simp
    show ?thesis
    proof (cases a)
      case Nil
      with eq have "x = y" "filter P xs = b" by simp_all
      with True Nil have "x # xs = [] @ y # xs \<and> filter P [] = a \<and> filter P xs = b \<and> P y"
        by simp
      then show ?thesis by blast
    next
      case (Cons a0 as)
      with eq have x: "x = a0" and f: "filter P xs = as @ y # b" by simp_all
      from Cons.IH [OF f] obtain a' b' where "xs = a' @ y # b'" "filter P a' = as"
        "filter P b' = b" "P y" by blast
      with True x Cons have "x # xs = (x # a') @ y # b' \<and> filter P (x # a') = a
        \<and> filter P b' = b \<and> P y" by simp
      then show ?thesis by blast
    qed
  qed
qed

lemma best_fit_spec:
  "case get_free_blocks_best_fit d n of
     None \<Rightarrow> \<forall>r\<in>set (free_runs d). length r < n
   | Some bs \<Rightarrow> \<exists>pre r post. free_runs d = pre @ r # post \<and> bs = take n r \<and> n \<le> length r
        \<and> (\<forall>q\<in>set pre. n \<le> length q \<longrightarrow> length r < length q)
        \<and> (\<forall>q\<in>set post. n \<le> length q \<longrightarrow> length r \<le> length q)"
proof (cases "filter (\<lambda>r. n \<le> length r) (free_runs d) = []")
  case True
  then have "get_free_blocks_best_fit d n = None"
    by (simp add: get_free_blocks_best_fit_def)
  moreover from True have "\<forall>r\<in>set (free_runs d). length r < n"
    by (auto simp: filter_empty_conv)
  ultimately show ?thesis by simp
next
  case False
  let ?c = "filter (\<lambda>r. n \<le> length r) (free_runs d)"
  let ?r = "min_key length ?c"
  have res: "get_free_blocks_best_fit d n = Some (take n ?r)"
    using False by (simp add: get_free_blocks_best_fit_def)
  from min_key_split [OF False, of length] obtain a b where c: "?c = a @ ?r # b"
    and lo: "\<forall>q\<in>set a. length ?r < length q" and hi: "\<forall>q\<in>set b. length ?r \<le> length q"
    by blast
  from filter_split [OF c] obtain a' b' where fr: "free_runs d = a' @ ?r # b'"
    and fa: "filter (\<lambda>r. n \<le> length r) a' = a" and fb: "filter (\<lambda>r. n \<le> length r) b' = b"
    and nr: "n \<le> length ?r" by blast
  have "\<forall>q\<in>set a'. n \<le> length q \<longrightarrow> length ?r < length q"
    using lo fa by auto
  moreover have "\<forall>q\<in>set b'. n \<le> length q \<longrightarrow> length ?r \<le> length q"
    using hi fb by auto
  ultimately have "\<exists>pre r post. free_runs d = pre @ r # post \<and> take n ?r = take n r \<and> n \<le> length r
        \<and> (\<forall>q\<in>set pre. n \<le> length q \<longrightarrow> length r < length q)
        \<and> (\<forall>q\<in>set post. n \<le> length q \<longrightarrow> length r \<le> length q)"
    using fr nr by blast
  with res show ?thesis by simp
qed

lemma best_fit_sound:
  assumes "get_free_blocks_best_fit d n = Some ks"
  shows "length ks = n \<and> distinct ks \<and> (\<forall>k\<in>set ks. k < length (blocks d) \<and> blocks d ! k = None)"
proof -
  from best_fit_spec [of d n] assms obtain pre r post where
    fr: "free_runs d = pre @ r # post" and ks: "ks = take n r" and n: "n \<le> length r"
    by auto
  from fr have "r \<in> set (free_runs d)" by simp
  with free_runs_are_runs obtain s e where r: "r = [s ..< e]"
    and run: "is_free_run (blocks d) s e" by blast
  have sub: "set ks \<subseteq> set r" unfolding ks by (rule set_take_subset)
  have "\<forall>k\<in>set ks. k < length (blocks d) \<and> blocks d ! k = None"
  proof
    fix k assume "k \<in> set ks"
    with sub r have "s \<le> k" "k < e" by auto
    with run show "k < length (blocks d) \<and> blocks d ! k = None"
      by (simp add: is_free_run_iff)
  qed
  moreover have "distinct ks" unfolding ks r by simp
  moreover have "length ks = n" unfolding ks using n by simp
  ultimately show ?thesis by simp
qed

lemma best_fit_523:
  "get_free_blocks_best_fit
     \<lparr>blocks = [None, None, None, None, None, Some a, None, None, Some b, None, None, None],
      files = fs, strategy = st\<rparr> 2 = Some [6, 7]"
  by (simp add: get_free_blocks_best_fit_def free_runs_def min_key_def Let_def)

lemma runs_523:
  "free_runs
     \<lparr>blocks = [None, None, None, None, None, Some a, None, None, Some b, None, None, None],
      files = fs, strategy = st\<rparr> = [[0, 1, 2, 3, 4], [6, 7], [9, 10, 11]]"
  by (simp add: free_runs_def)

lemma allocate_sound:
  assumes "allocate_blocks d n = Some bs"
  shows "\<exists>ks. bs = map int ks \<and> length ks = n \<and> distinct ks
           \<and> (\<forall>k\<in>set ks. k < length (blocks d) \<and> blocks d ! k = None)"
proof -
  from assms obtain ks where bs: "bs = map int ks"
    and "get_free_blocks_bitmap d n = Some ks \<or> get_free_blocks_first_fit d n = Some ks
         \<or> get_free_blocks_best_fit d n = Some ks"
    by (rule allocate_blocks_cases)
  then have "length ks = n \<and> distinct ks \<and> (\<forall>k\<in>set ks. k < length (blocks d) \<and> blocks d ! k = None)"
    using bitmap_sound first_fit_sound best_fit_sound by blast
  with bs show ?thesis by blast
qed

text \<open>
  Claim C6. The runs that best_fit collects are exactly the maximal runs of consecutive
  free slots, in scan order, and together they are the free-index sequence. For every
  \<open>n\<close>, best_fit fails exactly when no run has \<open>n\<close> slots; otherwise it returns the
  first \<open>n\<close> indices of a run \<open>r\<close> of at least \<open>n\<close> slots such that every earlier run
  of at least \<open>n\<close> slots is strictly longer and every later one at least as long: the
  smallest sufficient run, the first of them on a tie. With free runs of 5, 2 and 3
  slots and \<open>n = 2\<close> it takes the run of 2 (also when that run comes last), and of two
  runs of 2 slots the first.
\<close>

theorem best_fit_allocation:
  "(\<forall>r\<in>set (free_runs d). \<exists>s e. r = [s ..< e] \<and> is_free_run (blocks d) s e)
   \<and> (\<forall>s e. is_free_run (blocks d) s e \<longrightarrow> [s ..< e] \<in> set (free_runs d))
   \<and> concat (free_runs d) = free_indices d
   \<and> (case get_free_blocks_best_fit d n of
         None \<Rightarrow> \<forall>r\<in>set (free_runs d). length r < n
       | Some bs \<Rightarrow> \<exists>pre r post. free_runs d = pre @ r # post \<and> bs = take n r \<and> n \<le> length r
            \<and> (\<forall>q\<in>set pre. n \<le> length q \<longrightarrow> length r < length q)
            \<and> (\<forall>q\<in>set post. n \<le> length q \<longrightarrow> length r \<le> length q))
   \<and> get_free_blocks_best_fit
        \<lparr>blocks = [None, None, None, None, None, Some a, None, None, Some b, None, None, None],
         files = fs, strategy = st\<rparr> 2 = Some [6, 7]
   \<and> get_free_blocks_best_fit
        \<lparr>blocks = [None, None, None, Some a, None, None, None, None, None, Some b, None, None],
         files = fs, strategy = st\<rparr> 2 = Some [10, 11]
   \<and> get_free_blocks_best_fit
        \<lparr>blocks = [None, None, None, Some a, None, None, Some b, None, None],
         files = fs, strategy = st\<rparr> 2 = Some [4, 5]"
proof -
  have "get_free_blocks_best_fit
        \<lparr>blocks = [None, None, None, Some a, None, None, None, None, None, Some b, None, None],
         files = fs, strategy = st\<rparr> 2 = Some [10, 11]"
    by (simp add: get_free_blocks_best_fit_def free_runs_def min_key_def Let_def)
  moreover have "get_free_blocks_best_fit
        \<lparr>blocks = [None, None, None, Some a, None, None, Some b, None, None],
         files = fs, strategy = st\<rparr> 2 = Some [4, 5]"
    by (simp add: get_free_blocks_best_fit_def free_runs_def min_key_def Let_def)
  moreover have "\<forall>s e. is_free_run (blocks d) s e \<longrightarrow> [s ..< e] \<in> set (free_runs d)"
    using free_runs_complete by blast
  ultimately show ?thesis
    using free_runs_are_runs [of d] concat_free_runs [of d] best_fit_spec [of d n]
      best_fit_523 [of a b fs st]
    by simp
qed

theorem best_fit_allocation_witness:
  "free_runs runs_disk = [[0, 1, 2, 3, 4], [6, 7], [9, 10, 11]]
   \<and> free_indices runs_disk = [0, 1, 2, 3, 4, 6, 7, 9, 10, 11]
   \<and> is_free_run (blocks runs_disk) 6 8
   \<and> [6 ..< 8] \<in> set (free_runs runs_disk)
   \<and> get_free_blocks_best_fit runs_disk 2 = Some (take 2 [6, 7])
   \<and> (2::nat) \<le> length [0, 1, 2, 3, 4::nat] \<and> length [6, 7::nat] < length [0, 1, 2, 3, 4::nat]
   \<and> (2::nat) \<le> length [9, 10, 11::nat] \<and> length [6, 7::nat] \<le> length [9, 10, 11::nat]"
  using best_fit_allocation [of runs_disk 2]
  by (simp add: runs_disk_def get_free_blocks_best_fit_def free_runs_def min_key_def Let_def
      free_indices_def is_free_run_def upt_rec)

section \<open>Writing and reading back\<close>

lemma py_index_int [simp]: "py_index len (int k) = (if k < len then Some k else None)"
  by (simp add: py_index_def)

lemma py_index_less: "py_index len i = Some k \<Longrightarrow> k < len"
  by (auto simp: py_index_def split: if_splits)

lemma release_length: "length (fst (release bl bs)) = length bl"
proof (induction bs arbitrary: bl)
  case Nil
  show ?case by simp
next
  case (Cons b bs)
  show ?case
  proof (cases "py_index (length bl) b")
    case None
    then show ?thesis by simp
  next
    case (Some k)
    with Cons.IH [of "bl[k := None]"] show ?thesis by simp
  qed
qed

lemma store_chunks_ok:
  assumes "distinct ks" and "\<forall>k\<in>set ks. k < length bl"
  shows "\<exists>bl'. store_chunks bl c (enumerate i (map int ks)) = (bl', None)
           \<and> length bl' = length bl
           \<and> (\<forall>j<length ks. bl' ! (ks ! j) = Some (chunk c (i + j)))
           \<and> (\<forall>k. k \<notin> set ks \<longrightarrow> bl' ! k = bl ! k)"
  using assms
proof (induction ks arbitrary: bl i)
  case Nil
  show ?case by simp
next
  case (Cons k ks)
  let ?bl1 = "bl[k := Some (chunk c i)]"
  have kin: "k < length bl" and knot: "k \<notin> set ks" and dist: "distinct ks"
    using Cons.prems by simp_all
  have rng: "\<forall>k\<in>set ks. k < length ?bl1" using Cons.prems(2) by simp
  from Cons.IH [OF dist rng, of "Suc i"] obtain bl' where
    st: "store_chunks ?bl1 c (enumerate (Suc i) (map int ks)) = (bl', None)"
    and len: "length bl' = length ?bl1"
    and new: "\<forall>j<length ks. bl' ! (ks ! j) = Some (chunk c (Suc i + j))"
    and old: "\<forall>k. k \<notin> set ks \<longrightarrow> bl' ! k = ?bl1 ! k"
    by blast
  have step: "store_chunks bl c (enumerate i (map int (k # ks))) = (bl', None)"
    using st kin by (simp add: chunk_def)
  have l: "length bl' = length bl" using len by simp
  have n: "\<forall>j<length (k # ks). bl' ! ((k # ks) ! j) = Some (chunk c (i + j))"
  proof (intro allI impI)
    fix j assume j: "j < length (k # ks)"
    show "bl' ! ((k # ks) ! j) = Some (chunk c (i + j))"
    proof (cases j)
      case 0
      from old knot have "bl' ! k = ?bl1 ! k" by blast
      with kin 0 show ?thesis by simp
    next
      case (Suc j')
      with j have "j' < length ks" by simp
      with new have "bl' ! (ks ! j') = Some (chunk c (Suc i + j'))" by blast
      with Suc show ?thesis by simp
    qed
  qed
  have o: "\<forall>k'. k' \<notin> set (k # ks) \<longrightarrow> bl' ! k' = bl ! k'"
  proof (intro allI impI)
    fix k' assume k': "k' \<notin> set (k # ks)"
    then have "k' \<notin> set ks" and ne: "k' \<noteq> k" by simp_all
    with old have "bl' ! k' = ?bl1 ! k'" by blast
    with ne show "bl' ! k' = bl ! k'" by simp
  qed
  from step l n o show ?case by blast
qed

lemma read_pieces_nat:
  assumes "\<forall>k\<in>set ks. k < length bl"
  shows "read_pieces bl (map int ks) = Inr (concat (map (\<lambda>k. or_empty (bl ! k)) ks))"
  using assms by (induction ks) simp_all

lemma concat_chunks: "concat (map (chunk c) [0 ..< n]) = take (n * BLOCK_SIZE) c"
proof (induction n)
  case 0
  show ?case by simp
next
  case (Suc n)
  have "concat (map (chunk c) [0 ..< Suc n]) = take (n * BLOCK_SIZE) c @ chunk c n"
    using Suc by simp
  also have "chunk c n = take BLOCK_SIZE (drop (n * BLOCK_SIZE) c)"
    by (simp add: chunk_def slice_def)
  also have "take (n * BLOCK_SIZE) c @ take BLOCK_SIZE (drop (n * BLOCK_SIZE) c)
             = take (n * BLOCK_SIZE + BLOCK_SIZE) c"
    by (simp add: take_add)
  finally show ?case by (simp add: add.commute)
qed

lemma concat_chunks_all: "concat (map (chunk c) [0 ..< blocks_needed c]) = c"
  using blocks_needed_ceil [of c] by (simp add: concat_chunks)

lemma read_stored:
  assumes "\<forall>k\<in>set ks. k < length bl'"
    and "\<forall>j<length ks. bl' ! (ks ! j) = Some (chunk c j)"
  shows "read_pieces bl' (map int ks) = Inr (concat (map (chunk c) [0 ..< length ks]))"
proof -
  have "map (\<lambda>k. or_empty (bl' ! k)) ks = map (\<lambda>j. or_empty (bl' ! (ks ! j))) [0 ..< length ks]"
    by (simp add: map_equality_iff)
  also have "\<dots> = map (chunk c) [0 ..< length ks]"
    using assms(2) by (simp add: or_empty_def)
  finally show ?thesis using read_pieces_nat [OF assms(1)] by simp
qed

lemma cmd_write_cases:
  assumes "cmd_write d path content = (d', r)"
  obtains
    (nospace) "d' = d" "r = NoSpace"
      "allocate_blocks d (blocks_needed content) = None
       \<or> allocate_blocks d (blocks_needed content) = Some []"
  | (raised) e bl bs where "d' = d\<lparr>blocks := bl\<rparr>" "r = Raised e"
      "allocate_blocks d (blocks_needed content) = Some bs" "bs \<noteq> []"
  | (wrote) bs bl1 bl2 where "allocate_blocks d (blocks_needed content) = Some bs" "bs \<noteq> []"
      "release (blocks d) (case map_of (files d) path of None \<Rightarrow> [] | Some old \<Rightarrow> old) = (bl1, None)"
      "store_chunks bl1 content (enumerate 0 bs) = (bl2, None)"
      "d' = d\<lparr>blocks := bl2, files := AList.update path bs (files d)\<rparr>"
      "r = Wrote (length content) path"
proof (cases "allocate_blocks d (blocks_needed content)")
  case None
  with assms have "d' = d" "r = NoSpace" by (simp_all add: cmd_write_def)
  with None show ?thesis by (rule_tac nospace) simp_all
next
  case (Some bs)
  show ?thesis
  proof (cases "bs = []")
    case True
    with Some assms have "d' = d" "r = NoSpace" by (simp_all add: cmd_write_def)
    with Some True show ?thesis by (rule_tac nospace) simp_all
  next
    case False
    obtain bl1 e1 where rel:
      "release (blocks d) (case map_of (files d) path of None \<Rightarrow> [] | Some old \<Rightarrow> old) = (bl1, e1)"
      by (cases "release (blocks d) (case map_of (files d) path of None \<Rightarrow> [] | Some old \<Rightarrow> old)")
    show ?thesis
    proof (cases e1)
      case (Some e)
      with rel \<open>allocate_blocks d (blocks_needed content) = Some bs\<close> False assms
      have "d' = d\<lparr>blocks := bl1\<rparr>" "r = Raised e" by (simp_all add: cmd_write_def)
      with \<open>allocate_blocks d (blocks_needed content) = Some bs\<close> False
      show ?thesis by (rule_tac raised) simp_all
    next
      case None
      obtain bl2 e2 where st: "store_chunks bl1 content (enumerate 0 bs) = (bl2, e2)"
        by (cases "store_chunks bl1 content (enumerate 0 bs)")
      show ?thesis
      proof (cases e2)
        case (Some e)
        with st rel None \<open>allocate_blocks d (blocks_needed content) = Some bs\<close> False assms
        have "d' = d\<lparr>blocks := bl2\<rparr>" "r = Raised e" by (simp_all add: cmd_write_def)
        with \<open>allocate_blocks d (blocks_needed content) = Some bs\<close> False
        show ?thesis by (rule_tac raised) simp_all
      next
        case N2: None
        with st rel None \<open>allocate_blocks d (blocks_needed content) = Some bs\<close> False assms
        have "d' = d\<lparr>blocks := bl2, files := AList.update path bs (files d)\<rparr>"
          "r = Wrote (length content) path" by (simp_all add: cmd_write_def)
        with \<open>allocate_blocks d (blocks_needed content) = Some bs\<close> False rel None st N2
        show ?thesis by (rule_tac wrote) simp_all
      qed
    qed
  qed
qed

lemma write_then_read:
  assumes "cmd_write d path content = (d', Wrote n p)"
  shows "read_file_text d' path = Inr content"
proof -
  from assms obtain bs bl1 bl2 where
    al: "allocate_blocks d (blocks_needed content) = Some bs"
    and rel: "release (blocks d) (case map_of (files d) path of None \<Rightarrow> [] | Some old \<Rightarrow> old) = (bl1, None)"
    and st: "store_chunks bl1 content (enumerate 0 bs) = (bl2, None)"
    and d': "d' = d\<lparr>blocks := bl2, files := AList.update path bs (files d)\<rparr>"
    by (cases rule: cmd_write_cases) simp_all
  from allocate_sound [OF al] obtain ks where bs: "bs = map int ks"
    and len: "length ks = blocks_needed content" and dist: "distinct ks"
    and rng: "\<forall>k\<in>set ks. k < length (blocks d) \<and> blocks d ! k = None" by blast
  have l1: "length bl1 = length (blocks d)"
    using release_length [of "blocks d" "case map_of (files d) path of None \<Rightarrow> [] | Some old \<Rightarrow> old"] rel
    by simp
  have rng1: "\<forall>k\<in>set ks. k < length bl1" using rng l1 by simp
  from store_chunks_ok [OF dist rng1, of content 0] st bs
  have l2: "length bl2 = length bl1"
    and new: "\<forall>j<length ks. bl2 ! (ks ! j) = Some (chunk content j)"
    by auto
  have rng2: "\<forall>k\<in>set ks. k < length bl2" using rng1 l2 by simp
  have "read_pieces bl2 (map int ks) = Inr (concat (map (chunk content) [0 ..< length ks]))"
    using rng2 new by (rule read_stored)
  then have "read_pieces bl2 bs = Inr content"
    using bs len by (simp add: concat_chunks_all)
  moreover have "map_of (files d') path = Some bs"
    unfolding d' by (simp add: update_conv')
  moreover have "blocks d' = bl2" unfolding d' by simp
  ultimately show ?thesis by (simp add: read_file_text_def)
qed

text \<open>
  Claim C1. Whatever the disk, its strategy, the path and the content: when the write
  command succeeds (it replies "Wrote ..."), the file table lists \<open>blocks_needed content\<close>
  blocks for the path, the \<open>j\<close>-th of them holds the \<open>j\<close>-th slice of \<open>BLOCK_SIZE\<close>
  characters of the content, and reading the path back returns exactly the content.
\<close>

theorem write_read_round_trip:
  assumes "cmd_write d path content = (d', Wrote n p)"
  shows "read_file_text d' path = Inr content
         \<and> (\<exists>ks. map_of (files d') path = Some (map int ks)
                \<and> length ks = blocks_needed content
                \<and> (\<forall>j<length ks. ks ! j < length (blocks d')
                                    \<and> blocks d' ! (ks ! j) = Some (chunk content j)))"
proof -
  from assms obtain bs bl1 bl2 where
    al: "allocate_blocks d (blocks_needed content) = Some bs"
    and rel: "release (blocks d) (case map_of (files d) path of None \<Rightarrow> [] | Some old \<Rightarrow> old) = (bl1, None)"
    and st: "store_chunks bl1 content (enumerate 0 bs) = (bl2, None)"
    and d': "d' = d\<lparr>blocks := bl2, files := AList.update path bs (files d)\<rparr>"
    by (cases rule: cmd_write_cases) simp_all
  from allocate_sound [OF al] obtain ks where bs: "bs = map int ks"
    and len: "length ks = blocks_needed content" and dist: "distinct ks"
    and rng: "\<forall>k\<in>set ks. k < length (blocks d) \<and> blocks d ! k = None" by blast
  have l1: "length bl1 = length (blocks d)"
    using release_length [of "blocks d" "case map_of (files d) path of None \<Rightarrow> [] | Some old \<Rightarrow> old"] rel
    by simp
  have rng1: "\<forall>k\<in>set ks. k < length bl1" using rng l1 by simp
  from store_chunks_ok [OF dist rng1, of content 0] st bs
  have l2: "length bl2 = length bl1"
    and new: "\<forall>j<length ks. bl2 ! (ks ! j) = Some (chunk content j)"
    by auto
  have "\<forall>j<length ks. ks ! j < length bl2 \<and> bl2 ! (ks ! j) = Some (chunk content j)"
    using new rng1 l2 by simp
  moreover have "map_of (files d') path = Some (map int ks)"
    unfolding d' bs by (simp add: update_conv')
  moreover have "blocks d' = bl2" unfolding d' by simp
  ultimately have "\<exists>ks. map_of (files d') path = Some (map int ks)
                \<and> length ks = blocks_needed content
                \<and> (\<forall>j<length ks. ks ! j < length (blocks d')
                                    \<and> blocks d' ! (ks ! j) = Some (chunk content j))"
    using len by blast
  with write_then_read [OF assms] show ?thesis by simp
qed

theorem write_read_round_trip_witness:
  "snd (cmd_write default_disk ''f'' (replicate 130 CHR ''a'')) = Wrote 130 ''f''
   \<and> read_file_text (fst (cmd_write default_disk ''f'' (replicate 130 CHR ''a''))) ''f''
       = Inr (replicate 130 CHR ''a'')
   \<and> snd (cmd_write (default_disk\<lparr>strategy := ''first_fit''\<rparr>) ''f'' (replicate 130 CHR ''a''))
       = Wrote 130 ''f''
   \<and> read_file_text
         (fst (cmd_write (default_disk\<lparr>strategy := ''first_fit''\<rparr>) ''f'' (replicate 130 CHR ''a'')))
         ''f''
       = Inr (replicate 130 CHR ''a'')
   \<and> snd (cmd_write (default_disk\<lparr>strategy := ''best_fit''\<rparr>) ''f'' (replicate 130 CHR ''a''))
       = Wrote 130 ''f''
   \<and> read_file_text
         (fst (cmd_write (default_disk\<lparr>strategy := ''best_fit''\<rparr>) ''f'' (replicate 130 CHR ''a'')))
         ''f''
       = Inr (replicate 130 CHR ''a'')"
proof -
  have b: "snd (cmd_write default_disk ''f'' (replicate 130 CHR ''a'')) = Wrote 130 ''f''"
    by code_simp
  have f: "snd (cmd_write (default_disk\<lparr>strategy := ''first_fit''\<rparr>) ''f'' (replicate 130 CHR ''a''))
       = Wrote 130 ''f''"
    by code_simp
  have c: "snd (cmd_write (default_disk\<lparr>strategy := ''best_fit''\<rparr>) ''f'' (replicate 130 CHR ''a''))
       = Wrote 130 ''f''"
    by code_simp
  have pair: "\<And>x r. snd x = r \<Longrightarrow> x = (fst x, r)" by auto
  from write_read_round_trip [OF pair [OF b]] write_read_round_trip [OF pair [OF f]]
    write_read_round_trip [OF pair [OF c]] b f c
  show ?thesis by simp
qed

text \<open>
  What the cat command returns is the stored text after \<open>strip\<close>: the whitespace at the
  two ends of the text is not shown, and a text of whitespace only is shown as nothing.
\<close>

lemma cat_returns_stripped_text:
  "snd (execute_command (fst (cmd_write default_disk ''f'' ''hello'')) ''cat f'') = Text ''hello''
   \<and> read_file_text (fst (cmd_write default_disk ''f'' '' a b  '')) ''f'' = Inr '' a b  ''
   \<and> snd (cmd_cat (fst (cmd_write default_disk ''f'' '' a b  '')) ''f'') = Text ''a b''
   \<and> snd (cmd_cat (fst (cmd_write default_disk ''f'' ''  '')) ''f'') = Text []"
  by code_simp

section \<open>Failed writes and the order of allocation and release\<close>

lemma small_file_disk_reachable: "small_file_disk = fst (cmd_write default_disk ''f'' ''x'')"
  by code_simp

lemma allocate_bound:
  assumes "allocate_blocks d n = Some bs"
  shows "n \<le> length (blocks d)"
proof -
  from allocate_sound [OF assms] obtain ks where len: "length ks = n" and dist: "distinct ks"
    and rng: "\<forall>k\<in>set ks. k < length (blocks d) \<and> blocks d ! k = None" by blast
  from rng have "set ks \<subseteq> {..<length (blocks d)}" by auto
  then have "card (set ks) \<le> card {..<length (blocks d)}" by (intro card_mono) simp_all
  with dist len show ?thesis by (simp add: distinct_card)
qed

lemma cmd_write_too_big:
  assumes "length (blocks d) < blocks_needed content"
  shows "cmd_write d path content = (d, NoSpace)"
proof (cases "allocate_blocks d (blocks_needed content)")
  case None
  then show ?thesis by (simp add: cmd_write_def)
next
  case (Some bs)
  from allocate_bound [OF this] assms show ?thesis by simp
qed

lemma cmd_write_NoSpace:
  assumes "cmd_write d path content = (d', NoSpace)"
  shows "d' = d"
  using assms by (cases rule: cmd_write_cases) simp_all

lemma release_ok:
  assumes "release bl bs = (bl1, None)"
  shows "length bl1 = length bl
         \<and> (\<forall>b\<in>set bs. \<exists>k. py_index (length bl) b = Some k \<and> bl1 ! k = None)
         \<and> (\<forall>j. (\<forall>b\<in>set bs. py_index (length bl) b \<noteq> Some j) \<longrightarrow> bl1 ! j = bl ! j)"
  using assms
proof (induction bs arbitrary: bl)
  case Nil
  then show ?case by simp
next
  case (Cons b bs)
  from Cons.prems obtain k where k: "py_index (length bl) b = Some k"
    and rel: "release (bl[k := None]) bs = (bl1, None)"
    by (cases "py_index (length bl) b") simp_all
  from py_index_less [OF k] have klt: "k < length bl" .
  from Cons.IH [OF rel] have len: "length bl1 = length bl"
    and fr: "\<forall>b\<in>set bs. \<exists>k'. py_index (length bl) b = Some k' \<and> bl1 ! k' = None"
    and keep: "\<forall>j. (\<forall>b\<in>set bs. py_index (length bl) b \<noteq> Some j) \<longrightarrow> bl1 ! j = (bl[k := None]) ! j"
    by simp_all
  have bk: "bl1 ! k = None"
  proof (cases "\<forall>b\<in>set bs. py_index (length bl) b \<noteq> Some k")
    case True
    with keep have "bl1 ! k = (bl[k := None]) ! k" by blast
    with klt show ?thesis by simp
  next
    case False
    then obtain b' where "b' \<in> set bs" "py_index (length bl) b' = Some k" by blast
    with fr show ?thesis by fastforce
  qed
  have a: "\<forall>b'\<in>set (b # bs). \<exists>k'. py_index (length bl) b' = Some k' \<and> bl1 ! k' = None"
    using fr k bk by simp
  have c: "\<forall>j. (\<forall>b'\<in>set (b # bs). py_index (length bl) b' \<noteq> Some j) \<longrightarrow> bl1 ! j = bl ! j"
  proof (intro allI impI)
    fix j assume j: "\<forall>b'\<in>set (b # bs). py_index (length bl) b' \<noteq> Some j"
    then have "j \<noteq> k" using k by auto
    moreover from j keep have "bl1 ! j = (bl[k := None]) ! j" by simp
    ultimately show "bl1 ! j = bl ! j" by simp
  qed
  from len a c show ?case by blast
qed

text \<open>
  Claim C2 says that a write which fails for lack of space has already freed the old
  blocks of the path, so that the old content is lost. The code asks the allocator
  before it frees anything and gives up at once when the allocator fails: on
  \<open>small_file_disk\<close>, where \<open>f\<close> owns block 0 holding "x", a write of 16385 characters
  to \<open>f\<close> needs 129 blocks, fails, and leaves block 0 and the content "x" in place.
\<close>

theorem failed_write_keeps_old_content:
  "map_of (files small_file_disk) ''f'' = Some [0]
   \<and> snd (cmd_write small_file_disk ''f'' (replicate 16385 CHR ''a'')) = NoSpace
   \<and> blocks (fst (cmd_write small_file_disk ''f'' (replicate 16385 CHR ''a''))) ! 0 = Some ''x''
   \<and> read_file_text (fst (cmd_write small_file_disk ''f'' (replicate 16385 CHR ''a''))) ''f''
       = Inr ''x''"
proof -
  have "cmd_write small_file_disk ''f'' (replicate 16385 CHR ''a'') = (small_file_disk, NoSpace)"
    by (rule cmd_write_too_big) (simp add: small_file_disk_def blocks_needed_def BLOCK_SIZE_def)
  moreover have "read_file_text small_file_disk ''f'' = Inr ''x''"
    by code_simp
  moreover have "map_of (files small_file_disk) ''f'' = Some [0]"
    by (simp add: small_file_disk_def)
  moreover have "blocks small_file_disk ! 0 = Some ''x''"
    by (simp add: small_file_disk_def)
  ultimately show ?thesis by simp
qed

text \<open>
  Claim C2 as amended: a write that fails with "Not enough space." leaves the disk
  exactly as it was; the path keeps its blocks and its content, and no block is freed.
\<close>

theorem failed_write_changes_nothing:
  assumes "cmd_write d path content = (d', NoSpace)"
  shows "d' = d \<and> blocks d' = blocks d \<and> map_of (files d') path = map_of (files d) path
         \<and> read_file_text d' path = read_file_text d path"
  using cmd_write_NoSpace [OF assms] by simp

theorem failed_write_changes_nothing_witness:
  "cmd_write small_file_disk ''f'' (replicate 16385 CHR ''a'') = (small_file_disk, NoSpace)
   \<and> read_file_text small_file_disk ''f'' = Inr ''x''"
proof -
  have w: "cmd_write small_file_disk ''f'' (replicate 16385 CHR ''a'') = (small_file_disk, NoSpace)"
    by (rule cmd_write_too_big) (simp add: small_file_disk_def blocks_needed_def BLOCK_SIZE_def)
  have "read_file_text small_file_disk ''f'' = Inr ''x''"
    by code_simp
  with failed_write_changes_nothing [OF w] w show ?thesis by simp
qed




section \<open>The nested command line of append\<close>

lemma word_plain:
  assumes "list_all plain_char p"
  shows "read_tokens LWord es q tok (p @ rest) = read_tokens LWord es q (tok @ p) rest"
  using assms
proof (induction p arbitrary: tok)
  case Nil
  show ?case by simp
next
  case (Cons c p)
  then have pc: "plain_char c" and p: "list_all plain_char p" by simp_all
  from pc have c: "\<not> is_whitespace c" "\<not> is_quote c" "\<not> is_escape c"
    by (simp_all add: plain_char_def)
  have "read_tokens LWord es q tok ((c # p) @ rest) = read_tokens LWord es q (tok @ [c]) (p @ rest)"
    using c by simp
  also have "\<dots> = read_tokens LWord es q ((tok @ [c]) @ p) rest"
    by (rule Cons.IH [OF p])
  finally show ?case by simp
qed

lemma space_plain:
  assumes "plain_token p"
  shows "read_tokens LSpace es False [] (p @ rest) = read_tokens LWord es False p rest"
proof -
  from assms obtain c p' where p: "p = c # p'" and c: "plain_char c" and p': "list_all plain_char p'"
    by (cases p) (auto simp: plain_token_def)
  have "read_tokens LSpace es False [] (p @ rest) = read_tokens LWord es False [c] (p' @ rest)"
    using c by (simp add: p plain_char_def)
  also have "\<dots> = read_tokens LWord es False ([c] @ p') rest"
    by (rule word_plain [OF p'])
  finally show ?thesis by (simp add: p)
qed

lemma word_space:
  assumes "tok \<noteq> [] \<or> q"
  shows "read_tokens LWord es q tok (CHR '' '' # rest)
         = map_option (Cons tok) (read_tokens LSpace LSpace False [] rest)"
  using assms by (auto simp: is_whitespace_def)

lemma word_end:
  assumes "tok \<noteq> [] \<or> q"
  shows "read_tokens LWord es q tok [] = Some [tok]"
  using assms by (auto simp: emit_last_def)

lemma quoted_body:
  "read_tokens (LQuote (CHR 0x27)) es q tok (quote_body s @ CHR 0x27 # rest)
   = read_tokens LWord es True (tok @ s) rest"
proof (induction s arbitrary: tok q)
  case Nil
  show ?case by (simp add: quote_body_def)
next
  case (Cons c s)
  show ?case
  proof (cases "c = CHR 0x27")
    case True
    have "read_tokens (LQuote (CHR 0x27)) es q tok (quote_body (c # s) @ CHR 0x27 # rest)
          = read_tokens (LQuote (CHR 0x27)) es True (tok @ [c]) (quote_body s @ CHR 0x27 # rest)"
      using True by (simp add: quote_body_def is_whitespace_def is_quote_def is_escape_def)
    also have "\<dots> = read_tokens LWord es True ((tok @ [c]) @ s) rest"
      by (rule Cons.IH)
    finally show ?thesis by simp
  next
    case False
    have "read_tokens (LQuote (CHR 0x27)) es q tok (quote_body (c # s) @ CHR 0x27 # rest)
          = read_tokens (LQuote (CHR 0x27)) es True (tok @ [c]) (quote_body s @ CHR 0x27 # rest)"
      using False by (simp add: quote_body_def)
    also have "\<dots> = read_tokens LWord es True ((tok @ [c]) @ s) rest"
      by (rule Cons.IH)
    finally show ?thesis by simp
  qed
qed

lemma safe_plain: "is_safe c \<Longrightarrow> plain_char c"
  by (auto simp: is_safe_def plain_char_def is_whitespace_def is_quote_def is_escape_def
      less_eq_char_def)

lemma shlex_quote_unfold:
  "shlex_quote s =
     (if s = [] then [CHR 0x27, CHR 0x27]
      else if list_all is_safe s then s
      else CHR 0x27 # quote_body s @ [CHR 0x27])"
  by (simp add: shlex_quote_def quote_body_def)

lemma read_quoted:
  "read_tokens LSpace es False [] (shlex_quote s) = Some [s]"
proof (cases "s = []")
  case True
  then show ?thesis
    by (simp add: shlex_quote_unfold is_whitespace_def is_quote_def is_escape_def emit_last_def)
next
  case False
  show ?thesis
  proof (cases "list_all is_safe s")
    case True
    then have "list_all plain_char s" by (simp add: list_all_iff safe_plain)
    with False have "plain_token s" by (simp add: plain_token_def)
    from space_plain [OF this, of es "[]"] have
      "read_tokens LSpace es False [] s = read_tokens LWord es False s []" by simp
    with False True show ?thesis by (simp add: shlex_quote_unfold emit_last_def)
  next
    case unsafe: False
    have "read_tokens LSpace es False [] (CHR 0x27 # quote_body s @ [CHR 0x27])
          = read_tokens (LQuote (CHR 0x27)) es False [] (quote_body s @ CHR 0x27 # [])"
      by (simp add: is_whitespace_def is_quote_def is_escape_def)
    also have "\<dots> = read_tokens LWord es True ([] @ s) []"
      by (rule quoted_body)
    also have "\<dots> = Some [s]" by (simp add: emit_last_def)
    finally show ?thesis using False unsafe by (simp add: shlex_quote_unfold)
  qed
qed

lemma split_write_prefix:
  "shlex_split (''write '' @ rest) = map_option (Cons ''write'') (read_tokens LSpace LSpace False [] rest)"
  by (simp add: shlex_split_def is_whitespace_def is_quote_def is_escape_def)

lemma split_nested:
  assumes "plain_token p"
  shows "shlex_split (''write '' @ p @ '' '' @ shlex_quote c) = Some [''write'', p, c]"
proof -
  have e1: "shlex_split (''write '' @ p @ '' '' @ shlex_quote c)
        = map_option (Cons ''write'')
            (read_tokens LSpace LSpace False [] (p @ '' '' @ shlex_quote c))"
    by (rule split_write_prefix)
  have e2: "read_tokens LSpace LSpace False [] (p @ '' '' @ shlex_quote c)
        = read_tokens LWord LSpace False p ('' '' @ shlex_quote c)"
    by (rule space_plain [OF assms])
  have "p \<noteq> [] \<or> False" using assms by (simp add: plain_token_def)
  from word_space [OF this, of LSpace "shlex_quote c"]
  have e3: "read_tokens LWord LSpace False p ('' '' @ shlex_quote c)
        = map_option (Cons p) (read_tokens LSpace LSpace False [] (shlex_quote c))"
    by simp
  show ?thesis unfolding e1 e2 e3 read_quoted by simp
qed

lemma lower_write: "map lower_char ''write'' = ''write''"
  by (simp add: lower_char_def less_eq_char_def)

lemma execute_write_line_plain:
  assumes "plain_token p"
  shows "execute_write_line d (''write '' @ p @ '' '' @ shlex_quote c) = cmd_write d p c"
  unfolding execute_write_line_def split_nested [OF assms]
  by (simp add: lower_char_def less_eq_char_def join_space_def)

lemma execute_write_line_is_execute_command:
  "execute_write_line d (''write '' @ rest) = execute_command d (''write '' @ rest)"
proof (cases "read_tokens LSpace LSpace False [] rest")
  case None
  show ?thesis
    unfolding execute_write_line_def execute_command_def split_write_prefix None by simp
next
  case (Some ts)
  show ?thesis
    unfolding execute_write_line_def execute_command_def split_write_prefix Some
    by (simp add: lower_write Let_def)
qed

lemma cmd_append_absent:
  assumes "plain_token path" and "map_of (files d) path = None"
  shows "cmd_append d path content =
           (case cmd_write d path content of
              (d', Raised e) \<Rightarrow> (d', Raised e)
            | (d', _) \<Rightarrow> (d', Appended path))"
  using assms(2) execute_write_line_plain [OF assms(1), of d content]
  by (simp add: cmd_append_def)

lemma cmd_append_present:
  assumes "plain_token path" and "read_file_text d path = Inr existing"
  shows "cmd_append d path content =
           (case cmd_write d path (existing @ content) of
              (d', Raised e) \<Rightarrow> (d', Raised e)
            | (d', _) \<Rightarrow> (d', Appended path))"
proof -
  from assms(2) have "map_of (files d) path \<noteq> None"
    by (auto simp: read_file_text_def split: option.splits)
  with assms(2) execute_write_line_plain [OF assms(1), of d "existing @ content"]
  show ?thesis by (simp add: cmd_append_def)
qed

lemma cmd_append_reply:
  "snd (cmd_append d path content) = Appended path \<or> (\<exists>e. snd (cmd_append d path content) = Raised e)"
proof (cases "if map_of (files d) path \<noteq> None then read_file_text d path else Inr []")
  case (Inl e)
  then show ?thesis by (simp add: cmd_append_def)
next
  case (Inr existing)
  obtain d' r where
    "execute_write_line d (''write '' @ path @ '' '' @ shlex_quote (existing @ content)) = (d', r)"
    by (cases "execute_write_line d (''write '' @ path @ '' '' @ shlex_quote (existing @ content))")
  with Inr show ?thesis by (cases r) (simp_all add: cmd_append_def)
qed

text \<open>
  Claim C10. The append command never reports a failure of its nested write: unless an
  exception leaves it, its reply is "Appended to path". Whenever the path is a plain
  token holding \<open>existing\<close> and the rewrite of \<open>existing + content\<close> fails for lack of
  space, the nested call replies "Not enough space.", the reply is discarded, append
  reports success and the disk is exactly as before. This happens on
  \<open>small_file_disk\<close> for an append of 16385 characters to \<open>f\<close>.
\<close>

theorem append_reports_success_after_failed_write:
  assumes "plain_token path" and "read_file_text d path = Inr existing"
    and "cmd_write d path (existing @ content) = (d', NoSpace)"
  shows "execute_write_line d (''write '' @ path @ '' '' @ shlex_quote (existing @ content))
           = (d, NoSpace)
         \<and> cmd_append d path content = (d, Appended path)
         \<and> read_file_text (fst (cmd_append d path content)) path = Inr existing
         \<and> (snd (cmd_append d2 path2 content2) = Appended path2
              \<or> (\<exists>e. snd (cmd_append d2 path2 content2) = Raised e))"
proof -
  from cmd_write_NoSpace [OF assms(3)] have d': "d' = d" .
  have "execute_write_line d (''write '' @ path @ '' '' @ shlex_quote (existing @ content))
           = (d, NoSpace)"
    using execute_write_line_plain [OF assms(1), of d "existing @ content"] assms(3) d' by simp
  moreover have "cmd_append d path content = (d, Appended path)"
    using cmd_append_present [OF assms(1,2), of content] assms(3) d' by simp
  ultimately show ?thesis using assms(2) cmd_append_reply [of d2 path2 content2] by simp
qed

theorem append_reports_success_after_failed_write_witness:
  "plain_token ''f''
   \<and> read_file_text small_file_disk ''f'' = Inr ''x''
   \<and> cmd_write small_file_disk ''f'' (''x'' @ replicate 16385 CHR ''a'') = (small_file_disk, NoSpace)
   \<and> cmd_append small_file_disk ''f'' (replicate 16385 CHR ''a'') = (small_file_disk, Appended ''f'')
   \<and> read_file_text (fst (cmd_append small_file_disk ''f'' (replicate 16385 CHR ''a''))) ''f''
       = Inr ''x''"
proof -
  have p: "plain_token ''f''" by code_simp
  have r: "read_file_text small_file_disk ''f'' = Inr ''x''" by code_simp
  have w: "cmd_write small_file_disk ''f'' (''x'' @ replicate 16385 CHR ''a'')
           = (small_file_disk, NoSpace)"
    by (rule cmd_write_too_big) (simp add: small_file_disk_def blocks_needed_def BLOCK_SIZE_def)
  from append_reports_success_after_failed_write [OF p r w] p r w show ?thesis by simp
qed

text \<open>
  Two appends to an absent path, where the path is one plain token: if the rewrite
  made by the first append succeeds or \<open>a\<close> is empty, and the rewrite made by the
  second append succeeds or has nothing to add to a file that exists, then reading the
  path returns \<open>a + b\<close>.
\<close>

lemma append_twice_plain:
  assumes "plain_token path" and "map_of (files d) path = None"
    and "cmd_append d path a = (d1, r1)" and "cmd_append d1 path b = (d2, r2)"
    and "a = [] \<or> snd (cmd_write d path a) = Wrote (length a) path"
    and "snd (cmd_write d1 path (a @ b)) = Wrote (length (a @ b)) path
         \<or> (a \<noteq> [] \<and> b = [] \<and> snd (cmd_write d1 path (a @ b)) = NoSpace)"
  shows "read_file_text d2 path = Inr (a @ b)"
proof -
  have pair: "\<And>x r. snd x = r \<Longrightarrow> x = (fst x, r)" by auto
  have second: "read_file_text d2 path = Inr (existing @ b)"
    if ex: "cmd_append d1 path b
              = (case cmd_write d1 path (existing @ b) of
                   (d', Raised e) \<Rightarrow> (d', Raised e) | (d', _) \<Rightarrow> (d', Appended path))"
      and w: "snd (cmd_write d1 path (existing @ b)) = Wrote (length (existing @ b)) path"
    for existing
  proof -
    from pair [OF w] have w': "cmd_write d1 path (existing @ b)
        = (fst (cmd_write d1 path (existing @ b)), Wrote (length (existing @ b)) path)" .
    from ex assms(4) have "d2 = fst (cmd_write d1 path (existing @ b))"
      by (subst (asm) w') simp
    with write_then_read [OF w'] show ?thesis by simp
  qed
  show ?thesis
  proof (cases "snd (cmd_write d path a) = Wrote (length a) path")
    case True
    from pair [OF True] have w: "cmd_write d path a = (fst (cmd_write d path a), Wrote (length a) path)" .
    from cmd_append_absent [OF assms(1,2), of a] assms(3) have d1: "d1 = fst (cmd_write d path a)"
      by (subst (asm) w) simp
    from write_then_read [OF w] d1 have r: "read_file_text d1 path = Inr a" by simp
    note ex = cmd_append_present [OF assms(1) r, of b]
    show ?thesis
    proof (cases "snd (cmd_write d1 path (a @ b)) = Wrote (length (a @ b)) path")
      case True
      with ex show ?thesis by (rule second)
    next
      case False
      with assms(6) have b: "b = []" and n: "snd (cmd_write d1 path (a @ b)) = NoSpace"
        by blast+
      from pair [OF n] have n': "cmd_write d1 path (a @ b) = (fst (cmd_write d1 path (a @ b)), NoSpace)" .
      from cmd_write_NoSpace [OF n'] have "fst (cmd_write d1 path (a @ b)) = d1" .
      with n' have "cmd_write d1 path (a @ b) = (d1, NoSpace)" by simp
      with ex assms(4) have "d2 = d1" by simp
      with r b show ?thesis by simp
    qed
  next
    case False
    with assms(5) have a: "a = []" by simp
    with assms(6) have w6: "snd (cmd_write d1 path (a @ b)) = Wrote (length (a @ b)) path" by simp
    have "cmd_write d path a = (d, NoSpace)" unfolding a by (rule cmd_write_empty)
    with cmd_append_absent [OF assms(1,2), of a] assms(3) have d1: "d1 = d" by simp
    from cmd_append_absent [OF assms(1), of d1 b] assms(2) d1
    have "cmd_append d1 path b
              = (case cmd_write d1 path ([] @ b) of
                   (d', Raised e) \<Rightarrow> (d', Raised e) | (d', _) \<Rightarrow> (d', Appended path))"
      by simp
    moreover from w6 a have "snd (cmd_write d1 path ([] @ b)) = Wrote (length ([] @ b)) path"
      by simp
    ultimately have "read_file_text d2 path = Inr ([] @ b)" by (rule second)
    with a show ?thesis by simp
  qed
qed

lemma append_twice_hello_world:
  "read_file_text
     (fst (cmd_append (fst (cmd_append default_disk ''f'' ''hello'')) ''f'' '' world'')) ''f''
   = Inr ''hello world''"
proof -
  have p: "plain_token ''f''" by code_simp
  have m: "map_of (files default_disk) ''f'' = None" by (simp add: default_disk_def)
  have w1: "''hello'' = [] \<or> snd (cmd_write default_disk ''f'' ''hello'') = Wrote (length ''hello'') ''f''"
    by code_simp
  have w2: "snd (cmd_write (fst (cmd_append default_disk ''f'' ''hello'')) ''f'' (''hello'' @ '' world''))
       = Wrote (length (''hello'' @ '' world'')) ''f''"
    by code_simp
  have pair: "\<And>x. x = (fst x, snd x)" by simp
  from append_twice_plain [OF p m pair pair w1 disjI1 [OF w2]] show ?thesis by simp
qed

text \<open>
  Claim C8: two appends of \<open>a\<close> and \<open>b\<close> to an absent path leave \<open>a + b\<close> to be read
  there. The code departs from this at two inputs.

  With \<open>a = b = ""\<close> on the default disk, each append runs the line \<open>write f ''\<close>; the
  write asks for zero blocks, gets the empty list and is refused by \<open>if not blocks\<close>.
  The append command drops that reply and reports success, the disk is as before,
  and reading \<open>f\<close> raises FileNotFoundError where the claim gives the empty text.

  With the path \<open>f g\<close>, which the command line \<open>append "f g" a\<close> passes, the append
  command quotes the content with \<open>shlex.quote\<close> but pastes the path as it is: the
  nested line is \<open>write f g a\<close>, and it writes the text \<open>g a\<close> to the path \<open>f\<close>. After
  the two appends \<open>f g\<close> is still absent and \<open>f\<close> holds \<open>g b\<close>; on a disk where \<open>f\<close>
  holds \<open>x\<close>, that file is overwritten. The write command itself stores and reads back
  a text under the path \<open>f g\<close>.
\<close>

theorem append_twice_failing_inputs:
  "map_of (files default_disk) ''f'' = None
   \<and> execute_command default_disk (''append f '' @ [CHR 0x27, CHR 0x27])
       = (default_disk, Appended ''f'')
   \<and> cmd_append default_disk ''f'' [] = (default_disk, Appended ''f'')
   \<and> read_file_text (fst (cmd_append (fst (cmd_append default_disk ''f'' [])) ''f'' [])) ''f''
       = Inl FileNotFoundError
   \<and> map_of (files default_disk) ''f g'' = None
   \<and> execute_command default_disk (''append '' @ [CHR 0x22] @ ''f g'' @ [CHR 0x22] @ '' a'')
       = cmd_append default_disk ''f g'' ''a''
   \<and> execute_write_line default_disk (''write '' @ ''f g'' @ '' '' @ shlex_quote ''a'')
       = cmd_write default_disk ''f'' ''g a''
   \<and> read_file_text (fst (cmd_append (fst (cmd_append default_disk ''f g'' ''a'')) ''f g'' ''b''))
         ''f g''
       = Inl FileNotFoundError
   \<and> read_file_text (fst (cmd_append (fst (cmd_append default_disk ''f g'' ''a'')) ''f g'' ''b''))
         ''f''
       = Inr ''g b''
   \<and> read_file_text small_file_disk ''f'' = Inr ''x''
   \<and> read_file_text (fst (cmd_append small_file_disk ''f g'' ''a'')) ''f'' = Inr ''g a''
   \<and> read_file_text (fst (cmd_write default_disk ''f g'' ''a'')) ''f g'' = Inr ''a''"
proof -
  have 1: "map_of (files default_disk) ''f'' = None \<and> map_of (files default_disk) ''f g'' = None"
    by (simp add: default_disk_def)
  have 2: "execute_command default_disk (''append f '' @ [CHR 0x27, CHR 0x27])
       = (default_disk, Appended ''f'')"
    by code_simp
  have 3: "cmd_append default_disk ''f'' [] = (default_disk, Appended ''f'')"
    by code_simp
  have 4: "read_file_text (fst (cmd_append (fst (cmd_append default_disk ''f'' [])) ''f'' [])) ''f''
       = Inl FileNotFoundError"
    by code_simp
  have 5: "execute_command default_disk (''append '' @ [CHR 0x22] @ ''f g'' @ [CHR 0x22] @ '' a'')
       = cmd_append default_disk ''f g'' ''a''"
    by code_simp
  have 6: "execute_write_line default_disk (''write '' @ ''f g'' @ '' '' @ shlex_quote ''a'')
       = cmd_write default_disk ''f'' ''g a''"
    by code_simp
  have 7: "read_file_text (fst (cmd_append (fst (cmd_append default_disk ''f g'' ''a'')) ''f g'' ''b''))
         ''f g'' = Inl FileNotFoundError"
    by code_simp
  have 8: "read_file_text (fst (cmd_append (fst (cmd_append default_disk ''f g'' ''a'')) ''f g'' ''b''))
         ''f'' = Inr ''g b''"
    by code_simp
  have 9: "read_file_text small_file_disk ''f'' = Inr ''x''"
    by code_simp
  have 10: "read_file_text (fst (cmd_append small_file_disk ''f g'' ''a'')) ''f'' = Inr ''g a''"
    by code_simp
  have 11: "read_file_text (fst (cmd_write default_disk ''f g'' ''a'')) ''f g'' = Inr ''a''"
    by code_simp
  from 1 2 3 4 5 6 7 8 9 10 11 show ?thesis by simp
qed

section \<open>The invariants of the disk\<close>

lemma alist_split:
  assumes "map_of al k = Some v"
  shows "\<exists>a1 a2. al = a1 @ (k, v) # a2 \<and> k \<notin> fst ` set a1"
  using assms
proof (induction al)
  case Nil
  then show ?case by simp
next
  case (Cons x al)
  obtain k' v' where x: "x = (k', v')" by (cases x)
  show ?case
  proof (cases "k' = k")
    case True
    with Cons.prems x have "v' = v" by simp
    with True x have "x # al = [] @ (k, v) # al \<and> k \<notin> fst ` set []" by simp
    then show ?thesis by blast
  next
    case False
    with Cons.prems x have "map_of al k = Some v" by simp
    from Cons.IH [OF this] obtain a1 a2 where "al = a1 @ (k, v) # a2" "k \<notin> fst ` set a1" by blast
    with False x have "x # al = (x # a1) @ (k, v) # a2 \<and> k \<notin> fst ` set (x # a1)" by auto
    then show ?thesis by blast
  qed
qed

lemma update_split:
  assumes "k \<notin> fst ` set a1"
  shows "AList.update k v' (a1 @ (k, v) # a2) = a1 @ (k, v') # a2"
  using assms by (induction a1) auto

lemma update_fresh:
  assumes "k \<notin> fst ` set al"
  shows "AList.update k v al = al @ [(k, v)]"
  using assms by (induction al) auto

lemma delete_split:
  assumes "k \<notin> fst ` set a1" and "k \<notin> fst ` set a2"
  shows "AList.delete k (a1 @ (k, v) # a2) = a1 @ a2"
proof -
  have "AList.delete k a1 = a1" using assms(1) by (rule delete_id)
  moreover have "AList.delete k a2 = a2" using assms(2) by (rule delete_id)
  ultimately show ?thesis by (simp add: AList.delete_eq)
qed

lemma owned_update:
  "\<exists>o1 o2. concat (map snd al) = o1 @ (case map_of al k of None \<Rightarrow> [] | Some x \<Rightarrow> x) @ o2
      \<and> concat (map snd (AList.update k v al)) = o1 @ v @ o2"
proof (cases "map_of al k")
  case None
  then have "k \<notin> fst ` set al" by (simp add: map_of_eq_None_iff)
  from update_fresh [OF this, of v] None
  have "concat (map snd al) = concat (map snd al) @ (case map_of al k of None \<Rightarrow> [] | Some x \<Rightarrow> x) @ []
      \<and> concat (map snd (AList.update k v al)) = concat (map snd al) @ v @ []"
    by simp
  then show ?thesis by blast
next
  case (Some old)
  from alist_split [OF this] obtain a1 a2 where al: "al = a1 @ (k, old) # a2"
    and k: "k \<notin> fst ` set a1" by blast
  from update_split [OF k, of v old a2] al Some
  have "concat (map snd al)
          = concat (map snd a1) @ (case map_of al k of None \<Rightarrow> [] | Some x \<Rightarrow> x) @ concat (map snd a2)
      \<and> concat (map snd (AList.update k v al)) = concat (map snd a1) @ v @ concat (map snd a2)"
    by simp
  then show ?thesis by blast
qed

lemma owned_delete:
  assumes "distinct (map fst al)" and "map_of al k = Some old"
  shows "\<exists>o1 o2. concat (map snd al) = o1 @ old @ o2
      \<and> concat (map snd (AList.delete k al)) = o1 @ o2"
proof -
  from alist_split [OF assms(2)] obtain a1 a2 where al: "al = a1 @ (k, old) # a2"
    and k1: "k \<notin> fst ` set a1" by blast
  from assms(1) al have k2: "k \<notin> fst ` set a2" by auto
  from delete_split [OF k1 k2, of old] al
  have "concat (map snd al) = concat (map snd a1) @ old @ concat (map snd a2)
      \<and> concat (map snd (AList.delete k al)) = concat (map snd a1) @ concat (map snd a2)"
    by simp
  then show ?thesis by blast
qed

lemma release_no_raise:
  assumes "\<forall>b\<in>set bs. py_index (length bl) b \<noteq> None"
  shows "snd (release bl bs) = None"
  using assms
proof (induction bs arbitrary: bl)
  case Nil
  show ?case by simp
next
  case (Cons b bs)
  then obtain k where k: "py_index (length bl) b = Some k" by auto
  have "\<forall>b\<in>set bs. py_index (length (bl[k := None])) b \<noteq> None" using Cons.prems by simp
  from Cons.IH [OF this] k show ?case by simp
qed

lemma py_index_in_range:
  assumes "0 \<le> b" and "b < int len"
  shows "py_index len b = Some (nat b)"
  using assms by (simp add: py_index_def)

lemma read_pieces_in_range:
  assumes "\<forall>b\<in>set bs. 0 \<le> b \<and> b < int (length bl)"
  shows "read_pieces bl bs = Inr (concat (map (\<lambda>b. or_empty (bl ! nat b)) bs))"
  using assms by (induction bs) (simp_all add: py_index_in_range)

lemma old_in_owned:
  assumes "map_of (files d) path = Some old"
  shows "set old \<subseteq> set (owned d)"
proof -
  from assms have "(path, old) \<in> set (files d)" by (rule map_of_SomeD)
  then show ?thesis by (force simp: owned_def)
qed

lemma old_blocks_in_owned: "set (old_blocks d path) \<subseteq> set (owned d)"
  by (cases "map_of (files d) path") (simp_all add: old_blocks_def old_in_owned)

lemma inv_owned:
  assumes "disk_inv d" and "b \<in> set (owned d)"
  shows "0 \<le> b" and "b < int (length (blocks d))" and "blocks d ! nat b \<noteq> None"
  using assms by (auto simp: disk_inv_def list_all_iff)

lemma chunk_length: "length (chunk c i) \<le> BLOCK_SIZE"
  by (simp add: chunk_def slice_def)

lemma cmd_write_inv_cases:
  assumes inv: "disk_inv d" and w: "cmd_write d path content = (d', r)"
  obtains (nospace) "d' = d" "r = NoSpace"
  | (wrote) ks bl1 bl2 where "distinct ks"
      "\<forall>k\<in>set ks. k < length (blocks d) \<and> blocks d ! k = None"
      "length ks = blocks_needed content"
      "release (blocks d) (old_blocks d path) = (bl1, None)"
      "store_chunks bl1 content (enumerate 0 (map int ks)) = (bl2, None)"
      "d' = d\<lparr>blocks := bl2, files := AList.update path (map int ks) (files d)\<rparr>"
      "r = Wrote (length content) path"
proof (cases "allocate_blocks d (blocks_needed content)")
  case None
  with w have "d' = d" "r = NoSpace" by (simp_all add: cmd_write_def)
  then show ?thesis by (rule nospace)
next
  case (Some bs)
  show ?thesis
  proof (cases "bs = []")
    case True
    with Some w have "d' = d" "r = NoSpace" by (simp_all add: cmd_write_def)
    then show ?thesis by (rule nospace)
  next
    case False
    from allocate_sound [OF Some] obtain ks where bs: "bs = map int ks"
      and len: "length ks = blocks_needed content" and dist: "distinct ks"
      and rng: "\<forall>k\<in>set ks. k < length (blocks d) \<and> blocks d ! k = None" by blast
    have "\<forall>b\<in>set (old_blocks d path). py_index (length (blocks d)) b \<noteq> None"
    proof
      fix b assume "b \<in> set (old_blocks d path)"
      with old_blocks_in_owned have "b \<in> set (owned d)" by blast
      from inv_owned(1,2) [OF inv this] show "py_index (length (blocks d)) b \<noteq> None"
        by (simp add: py_index_in_range)
    qed
    from release_no_raise [OF this] obtain bl1 where
      rel: "release (blocks d) (old_blocks d path) = (bl1, None)"
      by (cases "release (blocks d) (old_blocks d path)") simp
    from release_ok [OF rel] have l1: "length bl1 = length (blocks d)" by simp
    have rng1: "\<forall>k\<in>set ks. k < length bl1" using rng l1 by simp
    from store_chunks_ok [OF dist rng1, of content 0] obtain bl2 where
      st: "store_chunks bl1 content (enumerate 0 (map int ks)) = (bl2, None)" by blast
    from rel have rel': "release (blocks d) (case map_of (files d) path of None \<Rightarrow> [] | Some old \<Rightarrow> old)
        = (bl1, None)" by (simp add: old_blocks_def)
    have "cmd_write d path content
          = (d\<lparr>blocks := bl2, files := AList.update path (map int ks) (files d)\<rparr>,
             Wrote (length content) path)"
      using Some False rel' st bs by (simp add: cmd_write_def)
    with w have "d' = d\<lparr>blocks := bl2, files := AList.update path (map int ks) (files d)\<rparr>"
      "r = Wrote (length content) path" by simp_all
    with dist rng len rel st show ?thesis by (rule_tac wrote)
  qed
qed

lemma inv_intro:
  assumes "length bl = TOTAL_BLOCKS"
    and "\<forall>j<length bl. length (or_empty (bl ! j)) \<le> BLOCK_SIZE"
    and "distinct (map fst fs)"
    and "\<forall>b\<in>set (concat (map snd fs)). 0 \<le> b \<and> b < int (length bl) \<and> bl ! nat b \<noteq> None"
    and "distinct (concat (map snd fs))"
  shows "disk_inv (d\<lparr>blocks := bl, files := fs\<rparr>)"
proof -
  have "list_all (\<lambda>b. length (or_empty b) \<le> BLOCK_SIZE) bl"
    using assms(2) by (simp add: list_all_length)
  moreover have "list_all (\<lambda>b. 0 \<le> b \<and> b < int (length bl) \<and> bl ! nat b \<noteq> None)
                   (concat (map snd fs))"
    using assms(4) unfolding list_all_iff by blast
  ultimately show ?thesis
    using assms(1,3,5) by (simp add: disk_inv_def no_sharing_def owned_def)
qed

lemma inv_fragments:
  assumes "disk_inv d" and "j < length (blocks d)"
  shows "length (or_empty (blocks d ! j)) \<le> BLOCK_SIZE"
  using assms by (simp add: disk_inv_def list_all_length)

lemma released_slot:
  assumes rel: "release bl bs = (bl1, None)"
  shows "bl1 ! j = None \<or> bl1 ! j = bl ! j"
proof (cases "\<forall>b\<in>set bs. py_index (length bl) b \<noteq> Some j")
  case True
  with release_ok [OF rel] show ?thesis by simp
next
  case False
  then obtain b where b: "b \<in> set bs" "py_index (length bl) b = Some j" by blast
  from release_ok [OF rel] b(1) obtain k where "py_index (length bl) b = Some k" "bl1 ! k = None"
    by blast
  with b(2) show ?thesis by simp
qed

lemma kept_slot:
  assumes inv: "disk_inv d" and rel: "release (blocks d) old = (bl1, None)"
    and old: "set old \<subseteq> set (owned d)" and b: "b \<in> set (owned d)" "b \<notin> set old"
  shows "bl1 ! nat b = blocks d ! nat b"
proof -
  have "\<forall>b'\<in>set old. py_index (length (blocks d)) b' \<noteq> Some (nat b)"
  proof
    fix b' assume b': "b' \<in> set old"
    with old have o: "b' \<in> set (owned d)" by blast
    from inv_owned(1,2) [OF inv o] have "py_index (length (blocks d)) b' = Some (nat b')"
      by (rule py_index_in_range)
    moreover have "nat b' \<noteq> nat b"
    proof
      assume "nat b' = nat b"
      with inv_owned(1) [OF inv o] inv_owned(1) [OF inv b(1)] have "b' = b" by simp
      with b' b(2) show False by simp
    qed
    ultimately show "py_index (length (blocks d)) b' \<noteq> Some (nat b)" by simp
  qed
  with release_ok [OF rel] show ?thesis by simp
qed

lemma write_preserves_inv:
  assumes inv: "disk_inv d" and w: "cmd_write d path content = (d', r)"
  shows "disk_inv d'"
  using inv w
proof (cases rule: cmd_write_inv_cases)
  case nospace
  with inv show ?thesis by simp
next
  case (wrote ks bl1 bl2)
  let ?bl = "blocks d"
  from release_ok [OF wrote(4)] have l1: "length bl1 = length ?bl" by simp
  have rng1: "\<forall>k\<in>set ks. k < length bl1" using wrote(2) l1 by simp
  from store_chunks_ok [OF wrote(1) rng1, of content 0] wrote(5)
  have l2: "length bl2 = length bl1"
    and new: "\<forall>j<length ks. bl2 ! (ks ! j) = Some (chunk content j)"
    and keep: "\<forall>k. k \<notin> set ks \<longrightarrow> bl2 ! k = bl1 ! k"
    by auto
  from owned_update [of "files d" path "map int ks"] obtain o1 o2 where
    ow: "owned d = o1 @ old_blocks d path @ o2"
    and ow': "concat (map snd (AList.update path (map int ks) (files d))) = o1 @ map int ks @ o2"
    by (auto simp: owned_def old_blocks_def)
  from inv have dist: "distinct (o1 @ old_blocks d path @ o2)"
    by (simp add: disk_inv_def no_sharing_def ow)
  have len: "length bl2 = TOTAL_BLOCKS" using inv l1 l2 by (simp add: disk_inv_def)
  have frag: "\<forall>j<length bl2. length (or_empty (bl2 ! j)) \<le> BLOCK_SIZE"
  proof (intro allI impI)
    fix j assume j: "j < length bl2"
    show "length (or_empty (bl2 ! j)) \<le> BLOCK_SIZE"
    proof (cases "j \<in> set ks")
      case True
      then obtain i where "i < length ks" "ks ! i = j" by (auto simp: in_set_conv_nth)
      with new have "bl2 ! j = Some (chunk content i)" by auto
      then show ?thesis by (simp add: or_empty_def chunk_length)
    next
      case False
      with keep have e: "bl2 ! j = bl1 ! j" by simp
      from released_slot [OF wrote(4), of j] show ?thesis
      proof
        assume "bl1 ! j = None"
        with e show ?thesis by (simp add: or_empty_def)
      next
        assume "bl1 ! j = ?bl ! j"
        with e inv_fragments [OF inv, of j] j l1 l2 show ?thesis by simp
      qed
    qed
  qed
  have keys: "distinct (map fst (AList.update path (map int ks) (files d)))"
    using inv by (simp add: disk_inv_def distinct_update)
  have others: "nat b \<notin> set ks \<and> bl2 ! nat b = ?bl ! nat b \<and> b \<in> set (owned d)"
    if b: "b \<in> set o1 \<union> set o2" for b
  proof -
    from b ow have o: "b \<in> set (owned d)" by auto
    from b dist have nold: "b \<notin> set (old_blocks d path)" by auto
    from inv_owned(3) [OF inv o] wrote(2) have nk: "nat b \<notin> set ks" by auto
    from kept_slot [OF inv wrote(4) old_blocks_in_owned o nold]
    have "bl1 ! nat b = ?bl ! nat b" .
    with keep nk o show ?thesis by simp
  qed
  have used: "\<forall>b\<in>set (concat (map snd (AList.update path (map int ks) (files d)))).
                0 \<le> b \<and> b < int (length bl2) \<and> bl2 ! nat b \<noteq> None"
  proof
    fix b assume "b \<in> set (concat (map snd (AList.update path (map int ks) (files d))))"
    with ow' have "b \<in> set (map int ks) \<or> b \<in> set o1 \<union> set o2" by auto
    then show "0 \<le> b \<and> b < int (length bl2) \<and> bl2 ! nat b \<noteq> None"
    proof
      assume "b \<in> set (map int ks)"
      then obtain k where k: "k \<in> set ks" "b = int k" by auto
      then obtain i where "i < length ks" "ks ! i = k" by (auto simp: in_set_conv_nth)
      with new have "bl2 ! k = Some (chunk content i)" by auto
      with k rng1 l2 show ?thesis by simp
    next
      assume b: "b \<in> set o1 \<union> set o2"
      from others [OF b] inv_owned [OF inv, of b] l1 l2 show ?thesis by simp
    qed
  qed
  have disj: "set (map int ks) \<inter> (set o1 \<union> set o2) = {}"
  proof (rule ccontr)
    assume "set (map int ks) \<inter> (set o1 \<union> set o2) \<noteq> {}"
    then obtain b where "b \<in> set (map int ks)" and b: "b \<in> set o1 \<union> set o2" by blast
    then obtain k where "k \<in> set ks" "b = int k" by auto
    with others [OF b] show False by simp
  qed
  have "distinct (map int ks)" using wrote(1) by (simp add: distinct_map)
  with dist disj have "distinct (o1 @ map int ks @ o2)" by auto
  with ow' have d2: "distinct (concat (map snd (AList.update path (map int ks) (files d))))"
    by simp
  show ?thesis unfolding wrote(6) by (rule inv_intro [OF len frag keys used d2])
qed

lemma rm_preserves_inv:
  assumes inv: "disk_inv d" and w: "cmd_rm d path = (d', r)"
  shows "disk_inv d'"
proof (cases "map_of (files d) path")
  case None
  with w have "d' = d" by (simp add: cmd_rm_def)
  with inv show ?thesis by simp
next
  case (Some bs)
  let ?bl = "blocks d"
  from old_in_owned [OF Some] have sub: "set bs \<subseteq> set (owned d)" .
  have "\<forall>b\<in>set bs. py_index (length ?bl) b \<noteq> None"
  proof
    fix b assume "b \<in> set bs"
    with sub have "b \<in> set (owned d)" by blast
    from inv_owned(1,2) [OF inv this] show "py_index (length ?bl) b \<noteq> None"
      by (simp add: py_index_in_range)
  qed
  from release_no_raise [OF this] obtain bl1 where rel: "release ?bl bs = (bl1, None)"
    by (cases "release ?bl bs") simp
  with Some w have d': "d' = d\<lparr>blocks := bl1, files := AList.delete path (files d)\<rparr>"
    by (simp add: cmd_rm_def)
  from release_ok [OF rel] have l1: "length bl1 = length ?bl" by simp
  from inv have keys0: "distinct (map fst (files d))" by (simp add: disk_inv_def)
  from owned_delete [OF keys0 Some] obtain o1 o2 where
    ow: "owned d = o1 @ bs @ o2"
    and ow': "concat (map snd (AList.delete path (files d))) = o1 @ o2"
    by (auto simp: owned_def)
  from inv have dist: "distinct (o1 @ bs @ o2)"
    by (simp add: disk_inv_def no_sharing_def ow)
  have len: "length bl1 = TOTAL_BLOCKS" using inv l1 by (simp add: disk_inv_def)
  have frag: "\<forall>j<length bl1. length (or_empty (bl1 ! j)) \<le> BLOCK_SIZE"
  proof (intro allI impI)
    fix j assume j: "j < length bl1"
    from released_slot [OF rel, of j] show "length (or_empty (bl1 ! j)) \<le> BLOCK_SIZE"
    proof
      assume "bl1 ! j = None"
      then show ?thesis by (simp add: or_empty_def)
    next
      assume "bl1 ! j = ?bl ! j"
      with inv_fragments [OF inv, of j] j l1 show ?thesis by simp
    qed
  qed
  have keys: "distinct (map fst (AList.delete path (files d)))"
    using keys0 by (rule distinct_delete)
  have used: "\<forall>b\<in>set (concat (map snd (AList.delete path (files d)))).
                0 \<le> b \<and> b < int (length bl1) \<and> bl1 ! nat b \<noteq> None"
  proof
    fix b assume "b \<in> set (concat (map snd (AList.delete path (files d))))"
    with ow' have b: "b \<in> set o1 \<union> set o2" by auto
    with ow have o: "b \<in> set (owned d)" by auto
    from b dist have nb: "b \<notin> set bs" by auto
    from kept_slot [OF inv rel sub o nb] inv_owned [OF inv o] l1
    show "0 \<le> b \<and> b < int (length bl1) \<and> bl1 ! nat b \<noteq> None" by simp
  qed
  from dist have "distinct (o1 @ o2)" by auto
  with ow' have d2: "distinct (concat (map snd (AList.delete path (files d))))" by simp
  show ?thesis unfolding d' by (rule inv_intro [OF len frag keys used d2])
qed

lemma execute_write_line_cases:
  assumes "execute_write_line d line = (d', r)"
  shows "d' = d \<or> (\<exists>p c. cmd_write d p c = (d', r))"
proof (cases "shlex_split line")
  case None
  with assms show ?thesis by (simp add: execute_write_line_def)
next
  case (Some ts)
  show ?thesis
  proof (cases ts)
    case Nil
    with Some assms show ?thesis by (simp add: execute_write_line_def)
  next
    case (Cons c args)
    show ?thesis
    proof (cases "map lower_char c = ''write'' \<and> \<not> length args < 2")
      case True
      with Some Cons assms have "cmd_write d (hd args) (join_space (tl args)) = (d', r)"
        by (simp add: execute_write_line_def)
      then show ?thesis by blast
    next
      case False
      with Some Cons assms have "d' = d"
        by (auto simp: execute_write_line_def split: if_splits)
      then show ?thesis by simp
    qed
  qed
qed

lemma cmd_append_cases:
  assumes "cmd_append d path content = (d', r)"
  shows "d' = d \<or> (\<exists>p c r'. cmd_write d p c = (d', r'))"
proof (cases "if map_of (files d) path \<noteq> None then read_file_text d path else Inr []")
  case (Inl e)
  with assms show ?thesis by (simp add: cmd_append_def)
next
  case (Inr existing)
  obtain d1 r1 where
    n: "execute_write_line d (''write '' @ path @ '' '' @ shlex_quote (existing @ content)) = (d1, r1)"
    by (cases "execute_write_line d (''write '' @ path @ '' '' @ shlex_quote (existing @ content))")
  with Inr assms have "d' = d1" by (cases r1) (simp_all add: cmd_append_def)
  with execute_write_line_cases [OF n] show ?thesis by blast
qed

lemma append_preserves_inv:
  assumes inv: "disk_inv d" and w: "cmd_append d path content = (d', r)"
  shows "disk_inv d'"
  using cmd_append_cases [OF w] inv write_preserves_inv by blast

lemma strategy_preserves_inv:
  assumes inv: "disk_inv d" and w: "cmd_strategy d name = (d', r)"
  shows "disk_inv d'"
  using assms by (auto simp: cmd_strategy_def disk_inv_def no_sharing_def owned_def split: if_splits)

lemma default_disk_inv: "disk_inv default_disk"
  by (simp add: disk_inv_def default_disk_def no_sharing_def owned_def TOTAL_BLOCKS_def
      list_all_iff or_empty_def)

lemma map_upt_Suc_shift: "map g [0 ..< Suc n] = g 0 # map (\<lambda>j. g (Suc j)) [0 ..< n]"
proof -
  have "[0 ..< Suc n] = 0 # map Suc [0 ..< n]"
    by (simp add: upt_conv_Cons map_Suc_upt del: upt_Suc)
  then show ?thesis by (simp add: comp_def del: upt_Suc)
qed

lemma store_range:
  assumes "s + n \<le> length nb"
  shows "store_chunks nb text (enumerate i (map int [s ..< s + n]))
         = (take s nb @ map (\<lambda>j. Some (chunk text (i + j))) [0 ..< n] @ drop (s + n) nb, None)"
  using assms
proof (induction n arbitrary: nb i s)
  case 0
  show ?case by simp
next
  case (Suc n)
  let ?nb = "nb[s := Some (chunk text i)]"
  have s: "s < length nb" using Suc.prems by simp
  have up: "[s ..< s + Suc n] = s # [Suc s ..< Suc s + n]"
    by (simp add: upt_conv_Cons del: upt_Suc)
  have le: "Suc s + n \<le> length ?nb" using Suc.prems by simp
  have step: "store_chunks nb text (enumerate i (map int [s ..< s + Suc n]))
              = store_chunks ?nb text (enumerate (Suc i) (map int [Suc s ..< Suc s + n]))"
    unfolding up using s by (simp add: chunk_def)
  have t: "take (Suc s) ?nb = take s nb @ [Some (chunk text i)]"
    using s by (simp add: take_Suc_conv_app_nth)
  have dr: "drop (Suc s + n) ?nb = drop (s + Suc n) nb" by simp
  have m: "map (\<lambda>j. Some (chunk text (i + j))) [0 ..< Suc n]
           = Some (chunk text i) # map (\<lambda>j. Some (chunk text (Suc i + j))) [0 ..< n]"
    using map_upt_Suc_shift [of "\<lambda>j. Some (chunk text (i + j))" n] by simp
  show ?case unfolding step Suc.IH [OF le] t dr m by simp
qed

lemma length_packed:
  "length (packed d items) = sum_list (map (\<lambda>(name, bs). blocks_needed (text_of d name)) items)"
  by (induction items) auto

lemma defrag_loop_closed:
  assumes "\<forall>(name, bs)\<in>set items. read_file_text d name = Inr (text_of d name)"
    and "distinct (map fst items)" and "fst ` set items \<inter> fst ` set nm = {}"
    and "idx + length (packed d items) \<le> length nb"
  shows "defrag_loop d nb nm idx items
         = Inr (take idx nb @ packed d items @ drop (idx + length (packed d items)) nb,
                nm @ layout d idx items)"
  using assms
proof (induction items arbitrary: nb nm idx)
  case Nil
  show ?case by simp
next
  case (Cons x items)
  obtain name bs where x: "x = (name, bs)" by (cases x)
  let ?t = "text_of d name"
  let ?n = "blocks_needed ?t"
  let ?cs = "map (\<lambda>i. Some (chunk ?t i)) [0 ..< ?n]"
  let ?nb = "take idx nb @ ?cs @ drop (idx + ?n) nb"
  let ?nm = "nm @ [(name, map int [idx ..< idx + ?n])]"
  have rd: "read_file_text d name = Inr ?t" using Cons.prems(1) x by simp
  have le: "idx + ?n \<le> length nb" using Cons.prems(4) x by simp
  have st: "store_chunks nb ?t (enumerate 0 (map int [idx ..< idx + ?n])) = (?nb, None)"
    using store_range [OF le, of ?t 0] by simp
  have fresh: "name \<notin> fst ` set nm" using Cons.prems(3) x by auto
  have up: "AList.update name (map int [idx ..< idx + ?n]) nm = ?nm"
    using fresh by (rule update_fresh)
  have step: "defrag_loop d nb nm idx (x # items) = defrag_loop d ?nb ?nm (idx + ?n) items"
    unfolding x using rd st up by (simp add: Let_def)
  have p1: "\<forall>(name, bs)\<in>set items. read_file_text d name = Inr (text_of d name)"
    using Cons.prems(1) by simp
  have p2: "distinct (map fst items)" using Cons.prems(2) by simp
  have p3: "fst ` set items \<inter> fst ` set ?nm = {}"
    using Cons.prems(2,3) x by auto
  have lnb: "length ?nb = length nb" using le by simp
  have p4: "idx + ?n + length (packed d items) \<le> length ?nb"
    using Cons.prems(4) x lnb by simp
  have tk: "take (idx + ?n) ?nb = take idx nb @ ?cs" using le by simp
  have dr: "drop (idx + ?n + length (packed d items)) ?nb
            = drop (idx + length (packed d (x # items))) nb"
    using le x by (simp add: ac_simps)
  show ?case
    unfolding step Cons.IH [OF p1 p2 p3 p4] tk dr
    by (simp add: x)
qed

lemma inv_read:
  assumes inv: "disk_inv d" and m: "map_of (files d) name = Some bs"
  shows "read_file_text d name = Inr (text_of d name)"
    and "blocks_needed (text_of d name) \<le> length bs"
proof -
  let ?bl = "blocks d"
  from old_in_owned [OF m] have sub: "set bs \<subseteq> set (owned d)" .
  have rng: "\<forall>b\<in>set bs. 0 \<le> b \<and> b < int (length ?bl)"
    using sub inv_owned(1,2) [OF inv] by blast
  from read_pieces_in_range [OF rng] m
  have r: "read_file_text d name = Inr (concat (map (\<lambda>b. or_empty (?bl ! nat b)) bs))"
    by (simp add: read_file_text_def)
  then have t: "text_of d name = concat (map (\<lambda>b. or_empty (?bl ! nat b)) bs)"
    by (simp add: text_of_def)
  from r t show "read_file_text d name = Inr (text_of d name)" by simp
  have "length (concat (map (\<lambda>b. or_empty (?bl ! nat b)) cs)) \<le> length cs * BLOCK_SIZE"
    if "set cs \<subseteq> set bs" for cs
    using that
  proof (induction cs)
    case Nil
    show ?case by simp
  next
    case (Cons c cs)
    then have "c \<in> set bs" by simp
    with rng have "nat c < length ?bl" by auto
    from inv_fragments [OF inv this] Cons show ?case by simp
  qed
  from this [of bs] t have "length (text_of d name) \<le> length bs * BLOCK_SIZE" by simp
  then show "blocks_needed (text_of d name) \<le> length bs"
    unfolding blocks_needed_def BLOCK_SIZE_def by simp
qed

lemma owned_bound:
  assumes inv: "disk_inv d"
  shows "length (owned d) \<le> length (blocks d)"
proof -
  have "set (owned d) \<subseteq> {0 ..< int (length (blocks d))}"
    using inv_owned(1,2) [OF inv] by auto
  then have "card (set (owned d)) \<le> card {0 ..< int (length (blocks d))}"
    by (intro card_mono) simp_all
  moreover from inv have "distinct (owned d)" by (simp add: disk_inv_def no_sharing_def)
  ultimately show ?thesis by (simp add: distinct_card)
qed

lemma needed_le_owned:
  assumes "\<forall>(name, bs)\<in>set fs. blocks_needed (text_of d name) \<le> length bs"
  shows "sum_list (map (\<lambda>(name, bs). blocks_needed (text_of d name)) fs)
         \<le> length (concat (map snd fs))"
  using assms by (induction fs) auto

lemma sum_sort_key:
  "sum_list (map g (sort_key f xs)) = sum_list (map (g::'a \<Rightarrow> nat) xs)"
proof -
  have "mset (map g (sort_key f xs)) = mset (map g xs)" by simp
  then have "sum_mset (mset (map g (sort_key f xs))) = sum_mset (mset (map g xs))" by simp
  then show ?thesis by (simp only: sum_mset_sum_list)
qed

lemma distinct_keys_sort:
  assumes "distinct (map fst xs)"
  shows "distinct (map fst (sort_key fst xs))"
proof -
  have "mset (map fst (sort_key fst xs)) = mset (map fst xs)" by simp
  from mset_eq_imp_distinct_iff [OF this] assms show ?thesis by simp
qed

lemma packed_total:
  assumes inv: "disk_inv d"
  shows "length (packed d (sort_key fst (files d))) \<le> TOTAL_BLOCKS"
proof -
  from inv have keys: "distinct (map fst (files d))" by (simp add: disk_inv_def)
  have "\<forall>(name, bs)\<in>set (files d). blocks_needed (text_of d name) \<le> length bs"
    using inv_read(2) [OF inv] keys by auto
  from needed_le_owned [OF this]
  have "sum_list (map (\<lambda>(name, bs). blocks_needed (text_of d name)) (files d)) \<le> length (owned d)"
    by (simp add: owned_def)
  also have "\<dots> \<le> TOTAL_BLOCKS" using owned_bound [OF inv] inv by (simp add: disk_inv_def)
  finally show ?thesis by (simp add: length_packed sum_sort_key)
qed

lemma cmd_defrag_closed:
  assumes inv: "disk_inv d"
  shows "cmd_defrag d
         = (d\<lparr>blocks := packed d (sort_key fst (files d))
                          @ replicate (TOTAL_BLOCKS - length (packed d (sort_key fst (files d)))) None,
               files := layout d 0 (sort_key fst (files d))\<rparr>, Defragmented)"
proof -
  let ?items = "sort_key fst (files d)"
  from inv have keys: "distinct (map fst (files d))" by (simp add: disk_inv_def)
  have p1: "\<forall>(name, bs)\<in>set ?items. read_file_text d name = Inr (text_of d name)"
    using inv_read(1) [OF inv] keys by auto
  have p2: "distinct (map fst ?items)" using keys by (rule distinct_keys_sort)
  have p3: "fst ` set ?items \<inter> fst ` set [] = {}" by simp
  have p4: "0 + length (packed d ?items) \<le> length (replicate TOTAL_BLOCKS (None::block))"
    using packed_total [OF inv] by simp
  show ?thesis
    unfolding cmd_defrag_def defrag_loop_closed [OF p1 p2 p3 p4] by simp
qed

lemma layout_keys: "map fst (layout d idx items) = map fst items"
  by (induction items arbitrary: idx) auto

lemma layout_owned:
  "concat (map snd (layout d idx items)) = map int [idx ..< idx + length (packed d items)]"
proof (induction items arbitrary: idx)
  case Nil
  show ?case by simp
next
  case (Cons x items)
  obtain name bs where x: "x = (name, bs)" by (cases x)
  let ?n = "blocks_needed (text_of d name)"
  have "[idx ..< idx + ?n + length (packed d items)]
        = [idx ..< idx + ?n] @ [idx + ?n ..< idx + ?n + length (packed d items)]"
    using upt_add_eq_append [of idx "idx + ?n" "length (packed d items)"] by simp
  with Cons.IH [of "idx + ?n"] show ?case by (simp add: x add.assoc)
qed

lemma packed_Some:
  assumes "k < length (packed d items)"
  shows "\<exists>t i. packed d items ! k = Some (chunk t i)"
  using assms
proof (induction items arbitrary: k)
  case Nil
  then show ?case by simp
next
  case (Cons x items)
  obtain name bs where x: "x = (name, bs)" by (cases x)
  let ?n = "blocks_needed (text_of d name)"
  show ?case
  proof (cases "k < ?n")
    case True
    then have "packed d (x # items) ! k = Some (chunk (text_of d name) k)"
      by (simp add: x nth_append)
    then show ?thesis by blast
  next
    case False
    with Cons.prems have "k - ?n < length (packed d items)" by (simp add: x)
    from Cons.IH [OF this] False show ?thesis by (simp add: x nth_append)
  qed
qed

lemma layout_entry:
  assumes "(name, rng) \<in> set (layout d idx items)" and "length pre = idx"
  shows "\<exists>s. rng = map int [s ..< s + blocks_needed (text_of d name)]
           \<and> s + blocks_needed (text_of d name) \<le> idx + length (packed d items)
           \<and> (\<forall>j<blocks_needed (text_of d name).
                 (pre @ packed d items @ post) ! (s + j) = Some (chunk (text_of d name) j))"
  using assms
proof (induction items arbitrary: idx pre)
  case Nil
  then show ?case by simp
next
  case (Cons x items)
  obtain name0 bs0 where x: "x = (name0, bs0)" by (cases x)
  let ?n0 = "blocks_needed (text_of d name0)"
  let ?c0 = "map (\<lambda>i. Some (chunk (text_of d name0) i)) [0 ..< ?n0]"
  from Cons.prems(1) x
  consider (hd) "name = name0" "rng = map int [idx ..< idx + ?n0]"
    | (tl) "(name, rng) \<in> set (layout d (idx + ?n0) items)" by auto
  then show ?case
  proof cases
    case hd
    have "\<forall>j<?n0. (pre @ packed d (x # items) @ post) ! (idx + j) = Some (chunk (text_of d name0) j)"
      using Cons.prems(2) by (simp add: x nth_append)
    with hd show ?thesis by (intro exI [of _ idx]) (simp add: x)
  next
    case tl
    have l: "length (pre @ ?c0) = idx + ?n0" using Cons.prems(2) by simp
    from Cons.IH [OF tl l] obtain s where
      s: "rng = map int [s ..< s + blocks_needed (text_of d name)]"
      "s + blocks_needed (text_of d name) \<le> idx + ?n0 + length (packed d items)"
      "\<forall>j<blocks_needed (text_of d name).
          ((pre @ ?c0) @ packed d items @ post) ! (s + j) = Some (chunk (text_of d name) j)"
      by blast
    have "(pre @ ?c0) @ packed d items @ post = pre @ packed d (x # items) @ post"
      by (simp add: x)
    with s show ?thesis by (intro exI [of _ s]) (simp add: x)
  qed
qed

lemma is_contiguous_range: "is_contiguous (map int [s ..< s + n])"
  by (simp add: is_contiguous_def list_all_iff)

lemma defrag_read:
  assumes inv: "disk_inv d"
  shows "read_file_text (defragmented d) name = read_file_text d name"
proof (cases "map_of (files d) name")
  case None
  then have "name \<notin> fst ` set (files d)" by (simp add: map_of_eq_None_iff)
  then have "name \<notin> set (map fst (layout d 0 (sort_key fst (files d))))"
    by (simp add: layout_keys)
  then have "map_of (files (defragmented d)) name = None"
    by (simp add: defragmented_def map_of_eq_None_iff)
  with None show ?thesis by (simp add: read_file_text_def)
next
  case (Some bs)
  let ?items = "sort_key fst (files d)"
  let ?bl = "packed d ?items @ replicate (TOTAL_BLOCKS - length (packed d ?items)) None"
  let ?n = "blocks_needed (text_of d name)"
  from map_of_SomeD [OF Some] have "name \<in> fst ` set (files d)" by force
  then have "name \<in> set (map fst (layout d 0 ?items))" by (simp add: layout_keys)
  then obtain rng where m: "map_of (layout d 0 ?items) name = Some rng"
    by (cases "map_of (layout d 0 ?items) name") (auto simp: map_of_eq_None_iff)
  from map_of_SomeD [OF m] have "(name, rng) \<in> set (layout d 0 ?items)" .
  from layout_entry [OF this, of "[]" "replicate (TOTAL_BLOCKS - length (packed d ?items)) None"]
  obtain s where rng: "rng = map int [s ..< s + ?n]"
    and le: "s + ?n \<le> length (packed d ?items)"
    and ch: "\<forall>j<?n. ?bl ! (s + j) = Some (chunk (text_of d name) j)"
    by auto
  have r1: "\<forall>k\<in>set [s ..< s + ?n]. k < length ?bl" using le by auto
  have r2: "\<forall>j<length [s ..< s + ?n]. ?bl ! ([s ..< s + ?n] ! j) = Some (chunk (text_of d name) j)"
    using ch by simp
  from read_stored [OF r1 r2]
  have "read_pieces ?bl rng = Inr (text_of d name)"
    by (simp add: rng concat_chunks_all)
  with m have "read_file_text (defragmented d) name = Inr (text_of d name)"
    by (simp add: read_file_text_def defragmented_def)
  with inv_read(1) [OF inv Some] show ?thesis by simp
qed

lemma defrag_contents:
  assumes inv: "disk_inv d"
  shows "contents (defragmented d) = contents d"
proof -
  have "mset (map fst (files (defragmented d))) = mset (map fst (files d))"
    by (simp add: defragmented_def layout_keys)
  then have "image_mset (\<lambda>p. (p, read_file_text d p)) (mset (map fst (files (defragmented d))))
             = image_mset (\<lambda>p. (p, read_file_text d p)) (mset (map fst (files d)))"
    by (rule arg_cong)
  then show ?thesis
    by (simp add: contents_def defrag_read [OF inv] del: mset_map) (simp add: mset_map [symmetric] del: mset_map)
qed

lemma defrag_blocks:
  assumes inv: "disk_inv d"
  shows "length (blocks (defragmented d)) = TOTAL_BLOCKS"
    and "k < length (packed d (sort_key fst (files d))) \<Longrightarrow> blocks (defragmented d) ! k \<noteq> None"
    and "length (packed d (sort_key fst (files d))) \<le> k \<Longrightarrow> k < TOTAL_BLOCKS
         \<Longrightarrow> blocks (defragmented d) ! k = None"
    and "j < TOTAL_BLOCKS \<Longrightarrow> length (or_empty (blocks (defragmented d) ! j)) \<le> BLOCK_SIZE"
proof -
  let ?p = "packed d (sort_key fst (files d))"
  from packed_total [OF inv] have le: "length ?p \<le> TOTAL_BLOCKS" .
  then show "length (blocks (defragmented d)) = TOTAL_BLOCKS" by (simp add: defragmented_def)
  show "blocks (defragmented d) ! k \<noteq> None" if "k < length ?p"
    using packed_Some [OF that] that by (auto simp: defragmented_def nth_append)
  show "blocks (defragmented d) ! k = None" if "length ?p \<le> k" "k < TOTAL_BLOCKS"
    using that by (simp add: defragmented_def nth_append)
  show "length (or_empty (blocks (defragmented d) ! j)) \<le> BLOCK_SIZE" if j: "j < TOTAL_BLOCKS"
  proof (cases "j < length ?p")
    case True
    from packed_Some [OF True] True show ?thesis
      by (auto simp: defragmented_def nth_append or_empty_def chunk_length)
  next
    case False
    with j show ?thesis by (simp add: defragmented_def nth_append or_empty_def)
  qed
qed

lemma defrag_preserves_inv:
  assumes inv: "disk_inv d"
  shows "disk_inv (defragmented d)"
proof -
  let ?items = "sort_key fst (files d)"
  let ?p = "packed d ?items"
  let ?bl = "?p @ replicate (TOTAL_BLOCKS - length ?p) None"
  have b: "blocks (defragmented d) = ?bl" by (simp add: defragmented_def)
  from defrag_blocks(1) [OF inv] have len: "length ?bl = TOTAL_BLOCKS" by (simp add: b)
  have frag: "\<forall>j<length ?bl. length (or_empty (?bl ! j)) \<le> BLOCK_SIZE"
    using defrag_blocks(4) [OF inv] len by (simp add: b)
  from inv have "distinct (map fst (files d))" by (simp add: disk_inv_def)
  then have keys: "distinct (map fst (layout d 0 ?items))"
    by (simp add: layout_keys distinct_keys_sort)
  have ow: "concat (map snd (layout d 0 ?items)) = map int [0 ..< length ?p]"
    using layout_owned [of d 0 ?items] by simp
  have used: "\<forall>b\<in>set (concat (map snd (layout d 0 ?items))).
                0 \<le> b \<and> b < int (length ?bl) \<and> ?bl ! nat b \<noteq> None"
  proof
    fix b assume "b \<in> set (concat (map snd (layout d 0 ?items)))"
    with ow obtain k where k: "b = int k" "k < length ?p" by auto
    from defrag_blocks(2) [OF inv k(2)] packed_total [OF inv] k len
    show "0 \<le> b \<and> b < int (length ?bl) \<and> ?bl ! nat b \<noteq> None" by (simp add: b)
  qed
  have d2: "distinct (concat (map snd (layout d 0 ?items)))"
    unfolding ow by (simp add: distinct_map)
  show ?thesis unfolding defragmented_def by (rule inv_intro [OF len frag keys used d2])
qed

lemma cmd_defrag_inv:
  assumes inv: "disk_inv d"
  shows "cmd_defrag d = (defragmented d, Defragmented)"
  using cmd_defrag_closed [OF inv] by (simp add: defragmented_def)

lemma pair_fst_snd: "x = (fst x, snd x)"
  by simp

lemma apply_op_inv:
  assumes "disk_inv d"
  shows "disk_inv (apply_op d c)"
proof (cases c)
  case (Write path content)
  from write_preserves_inv [OF assms pair_fst_snd] show ?thesis by (simp add: Write)
next
  case (Append path content)
  from append_preserves_inv [OF assms pair_fst_snd] show ?thesis by (simp add: Append)
next
  case (Delete path)
  from rm_preserves_inv [OF assms pair_fst_snd] show ?thesis by (simp add: Delete)
next
  case Defragment
  from defrag_preserves_inv [OF assms] cmd_defrag_inv [OF assms] show ?thesis
    by (simp add: Defragment)
next
  case (SetStrategy name)
  from strategy_preserves_inv [OF assms pair_fst_snd] show ?thesis by (simp add: SetStrategy)
qed

lemma run_ops_inv:
  assumes "disk_inv d"
  shows "disk_inv (foldl apply_op d ops)"
  using assms by (induction ops arbitrary: d) (simp_all add: apply_op_inv)

lemma inv_no_sharing: "disk_inv d \<Longrightarrow> no_sharing d"
  by (simp add: disk_inv_def)

lemma layout_contiguous:
  "list_all (\<lambda>(name, bs). is_contiguous bs) (layout d idx items)"
proof -
  have "is_contiguous rng" if "(name, rng) \<in> set (layout d idx items)" for name rng
  proof -
    obtain pre :: "block list" where "length pre = idx" by (metis length_replicate)
    from layout_entry [OF that this, of "[]"] obtain s where
      "rng = map int [s ..< s + blocks_needed (text_of d name)]" by blast
    then show ?thesis by (simp add: is_contiguous_range)
  qed
  then show ?thesis by (auto simp: list_all_iff)
qed

text \<open>
  Claim C7. On every disk that satisfies the invariants of the data model, the defrag
  command completes and keeps the multiset of (path, content) pairs: reading any path
  gives what it gave before. Afterwards the block indices of every file are a
  consecutive ascending run, the file table lists exactly the blocks \<open>0, ..., m - 1\<close>
  for some \<open>m\<close>, these are in use and all blocks from \<open>m\<close> on are free, so that no free
  block precedes a used one. The strategy is unchanged.
\<close>

theorem defragment_preserves_and_packs:
  assumes "disk_inv d"
  shows "snd (cmd_defrag d) = Defragmented
         \<and> contents (fst (cmd_defrag d)) = contents d
         \<and> (\<forall>name. read_file_text (fst (cmd_defrag d)) name = read_file_text d name)
         \<and> list_all (\<lambda>(name, bs). is_contiguous bs) (files (fst (cmd_defrag d)))
         \<and> (\<exists>m\<le>TOTAL_BLOCKS. owned (fst (cmd_defrag d)) = map int [0 ..< m]
               \<and> (\<forall>k<m. blocks (fst (cmd_defrag d)) ! k \<noteq> None)
               \<and> (\<forall>k. m \<le> k \<and> k < TOTAL_BLOCKS \<longrightarrow> blocks (fst (cmd_defrag d)) ! k = None))
         \<and> length (blocks (fst (cmd_defrag d))) = TOTAL_BLOCKS
         \<and> strategy (fst (cmd_defrag d)) = strategy d"
proof -
  let ?p = "packed d (sort_key fst (files d))"
  have c: "cmd_defrag d = (defragmented d, Defragmented)" by (rule cmd_defrag_inv [OF assms])
  have "owned (defragmented d) = map int [0 ..< length ?p]"
    using layout_owned [of d 0 "sort_key fst (files d)"] by (simp add: owned_def defragmented_def)
  moreover have "\<forall>k<length ?p. blocks (defragmented d) ! k \<noteq> None"
    using defrag_blocks(2) [OF assms] by blast
  moreover have "\<forall>k. length ?p \<le> k \<and> k < TOTAL_BLOCKS \<longrightarrow> blocks (defragmented d) ! k = None"
    using defrag_blocks(3) [OF assms] by blast
  ultimately have pk: "\<exists>m\<le>TOTAL_BLOCKS. owned (defragmented d) = map int [0 ..< m]
               \<and> (\<forall>k<m. blocks (defragmented d) ! k \<noteq> None)
               \<and> (\<forall>k. m \<le> k \<and> k < TOTAL_BLOCKS \<longrightarrow> blocks (defragmented d) ! k = None)"
    using packed_total [OF assms] by blast
  have ct: "list_all (\<lambda>(name, bs). is_contiguous bs) (files (defragmented d))"
    using layout_contiguous [of d 0 "sort_key fst (files d)"] by (simp add: defragmented_def)
  have st: "strategy (defragmented d) = strategy d" by (simp add: defragmented_def)
  from pk ct st defrag_contents [OF assms] defrag_read [OF assms] defrag_blocks(1) [OF assms]
  show ?thesis unfolding c by simp
qed

theorem defragment_preserves_and_packs_witness:
  "disk_inv frag_disk
   \<and> frag_disk
       = foldl apply_op default_disk
           [Write ''t'' ''t'', Write ''b'' ''y'', Delete ''t'',
            Write ''a'' (replicate 128 CHR ''a'' @ ''z'')]
   \<and> \<not> is_contiguous [0, 2]
   \<and> files (fst (cmd_defrag frag_disk)) = [(''a'', [0, 1]), (''b'', [2])]
   \<and> is_contiguous [0, 1] \<and> is_contiguous [2]
   \<and> read_file_text frag_disk ''a'' = Inr (replicate 128 CHR ''a'' @ ''z'')
   \<and> read_file_text (fst (cmd_defrag frag_disk)) ''a'' = Inr (replicate 128 CHR ''a'' @ ''z'')
   \<and> read_file_text (fst (cmd_defrag frag_disk)) ''b'' = Inr ''y''
   \<and> owned (fst (cmd_defrag frag_disk)) = map int [0 ..< 3]
   \<and> blocks (fst (cmd_defrag frag_disk)) ! 3 = None"
proof -
  have i: "disk_inv frag_disk" by code_simp
  have r: "frag_disk
       = foldl apply_op default_disk
           [Write ''t'' ''t'', Write ''b'' ''y'', Delete ''t'',
            Write ''a'' (replicate 128 CHR ''a'' @ ''z'')]"
    by code_simp
  have c: "\<not> is_contiguous [0, 2] \<and> is_contiguous [0, 1] \<and> is_contiguous [2]" by code_simp
  have f: "files (fst (cmd_defrag frag_disk)) = [(''a'', [0, 1]), (''b'', [2])]" by code_simp
  have a: "read_file_text frag_disk ''a'' = Inr (replicate 128 CHR ''a'' @ ''z'')" by code_simp
  have b: "read_file_text frag_disk ''b'' = Inr ''y''" by code_simp
  have o: "owned (fst (cmd_defrag frag_disk)) = map int [0 ..< 3]
           \<and> blocks (fst (cmd_defrag frag_disk)) ! 3 = None" by code_simp
  from defragment_preserves_and_packs [OF i] i r c f a b o show ?thesis by simp
qed

text \<open>
  Claim C9. No block index is listed twice in the file table, in two files or in one,
  after any of the commands write, append, rm and defrag, on every disk that satisfies
  the invariants of the data model; these invariants hold on the default disk and each
  command keeps all of them, so they hold, and no block is shared, after any sequence of
  commands from the default disk.
\<close>

theorem operations_preserve_no_sharing:
  assumes "disk_inv d"
  shows "no_sharing (fst (cmd_write d path content)) \<and> disk_inv (fst (cmd_write d path content))
         \<and> no_sharing (fst (cmd_append d path content)) \<and> disk_inv (fst (cmd_append d path content))
         \<and> no_sharing (fst (cmd_rm d path)) \<and> disk_inv (fst (cmd_rm d path))
         \<and> no_sharing (fst (cmd_defrag d)) \<and> disk_inv (fst (cmd_defrag d))
         \<and> disk_inv default_disk
         \<and> no_sharing (foldl apply_op default_disk ops)
         \<and> disk_inv (foldl apply_op default_disk ops)"
proof -
  have w: "disk_inv (fst (cmd_write d path content))"
    using write_preserves_inv [OF assms pair_fst_snd] .
  have a: "disk_inv (fst (cmd_append d path content))"
    using append_preserves_inv [OF assms pair_fst_snd] .
  have r: "disk_inv (fst (cmd_rm d path))"
    using rm_preserves_inv [OF assms pair_fst_snd] .
  have g: "disk_inv (fst (cmd_defrag d))"
    using defrag_preserves_inv [OF assms] cmd_defrag_inv [OF assms] by simp
  have s: "disk_inv (foldl apply_op default_disk ops)"
    using default_disk_inv by (rule run_ops_inv)
  from w a r g s default_disk_inv inv_no_sharing show ?thesis by blast
qed

theorem operations_preserve_no_sharing_witness:
  "disk_inv frag_disk
   \<and> owned (fst (cmd_write frag_disk ''b'' (replicate 200 CHR ''c''))) = [3, 4, 0, 2]
   \<and> no_sharing (fst (cmd_write frag_disk ''b'' (replicate 200 CHR ''c'')))
   \<and> owned (fst (cmd_append frag_disk ''b'' ''yy'')) = [3, 0, 2]
   \<and> no_sharing (fst (cmd_append frag_disk ''b'' ''yy''))
   \<and> owned (fst (cmd_rm frag_disk ''b'')) = [0, 2]
   \<and> no_sharing (fst (cmd_rm frag_disk ''b''))
   \<and> owned (fst (cmd_defrag frag_disk)) = [0, 1, 2]
   \<and> no_sharing (fst (cmd_defrag frag_disk))"
proof -
  have i: "disk_inv frag_disk" by code_simp
  have o: "owned (fst (cmd_write frag_disk ''b'' (replicate 200 CHR ''c''))) = [3, 4, 0, 2]
    \<and> owned (fst (cmd_append frag_disk ''b'' ''yy'')) = [3, 0, 2]
    \<and> owned (fst (cmd_rm frag_disk ''b'')) = [0, 2]
    \<and> owned (fst (cmd_defrag frag_disk)) = [0, 1, 2]"
    by code_simp
  from operations_preserve_no_sharing [OF i, of "''b''" "replicate 200 CHR ''c''"]
    operations_preserve_no_sharing [OF i, of "''b''" "''yy''"] i o
  show ?thesis by simp
qed

end
